theory Spec2Isabelle
  imports Main "HOL-Library.AList" "HOL-Library.Multiset"
begin

section \<open>Go's regexp package, for the patterns the program uses\<close>

text \<open>
  The program matches image strings with compiled regular expressions of Go's
  \<^verbatim>\<open>regexp\<close> package, which is not part of the repository. A compiled expression is
  modelled by its syntax tree, for the constructs that occur in the program's own pattern
  \<^verbatim>\<open>(\d+)\.(\d+)(\.\d+)?\<close> and in the rule patterns of the specification: a literal byte,
  the class \<^verbatim>\<open>\d\<close> (the ASCII digits), concatenation, the greedy \<^verbatim>\<open>+\<close> and \<^verbatim>\<open>?\<close>, and a
  capturing group carrying its number (groups are numbered from 1 by their opening
  parenthesis). Strings are byte strings, as in Go.
\<close>

datatype regex =
    Chr char
  | Digit
  | Seq regex regex
  | Plus regex
  | Opt regex
  | Group nat regex

type_synonym caps = "nat \<Rightarrow> string option"

definition is_digit :: "char \<Rightarrow> bool" where
  "is_digit c = (c \<in> set ''0123456789'')"

text \<open>
  \<open>parses r s c\<close> lists the ways in which \<open>r\<close> matches a prefix of \<open>s\<close>, each as the rest
  of the input with the captures so far, in the order in which a backtracking matcher
  tries them: a greedy operator first with as many repetitions as possible. The first
  entry of the list is the match that Go reports (leftmost-first semantics). A repetition
  goes on only after an iteration that consumed input, and a further iteration that
  consumes nothing is not taken, as in Go, where the matcher does not come back to the
  same instruction at the same position.
\<close>

fun parses :: "regex \<Rightarrow> string \<Rightarrow> caps \<Rightarrow> (string \<times> caps) list" where
  "parses (Chr a) s c = (case s of [] \<Rightarrow> [] | x # t \<Rightarrow> if x = a then [(t, c)] else [])"
| "parses Digit s c = (case s of [] \<Rightarrow> [] | x # t \<Rightarrow> if is_digit x then [(t, c)] else [])"
| "parses (Seq r1 r2) s c = concat (map (\<lambda>p. parses r2 (fst p) (snd p)) (parses r1 s c))"
| "parses (Plus r) s c =
     concat (map (\<lambda>p. (if length (fst p) < length s
                           then filter (\<lambda>q. length (fst q) < length (fst p))
                                  (parses (Plus r) (fst p) (snd p))
                           else [])
                       @ [p])
                 (parses r s c))"
| "parses (Opt r) s c = parses r s c @ [(s, c)]"
| "parses (Group n r) s c =
     map (\<lambda>p. (fst p, (snd p)(n \<mapsto> take (length s - length (fst p)) s))) (parses r s c)"

text \<open>
  The search for a match: the start positions are tried from left to right, and at each
  one the first way of matching is taken. The result is the suffix at which the match
  starts, the input left after the match, and the captures.
\<close>

fun find_from :: "regex \<Rightarrow> string \<Rightarrow> (string \<times> string \<times> caps) option" where
  "find_from r s =
     (case parses r s Map.empty of
        p # _ \<Rightarrow> Some (s, fst p, snd p)
      | [] \<Rightarrow> (case s of [] \<Rightarrow> None | _ # s' \<Rightarrow> find_from r s'))"

fun NumSubexp :: "regex \<Rightarrow> nat" where
  "NumSubexp (Chr a) = 0"
| "NumSubexp Digit = 0"
| "NumSubexp (Seq r1 r2) = NumSubexp r1 + NumSubexp r2"
| "NumSubexp (Plus r) = NumSubexp r"
| "NumSubexp (Opt r) = NumSubexp r"
| "NumSubexp (Group n r) = Suc (NumSubexp r)"

text \<open>
  \<^verbatim>\<open>FindStringSubmatch\<close> returns nil (\<open>None\<close>) when there is no match, and otherwise the
  text of the leftmost match followed by the text of each group, the empty string for a
  group that took no part in the match. \<^verbatim>\<open>FindString\<close> returns the text of the leftmost
  match, or the empty string when there is none; \<^verbatim>\<open>MatchString\<close> tells whether the
  string contains a match.
\<close>

definition FindStringSubmatch :: "regex \<Rightarrow> string \<Rightarrow> string list option" where
  "FindStringSubmatch r s =
     (case find_from r s of
        None \<Rightarrow> None
      | Some (s0, t, c) \<Rightarrow>
          Some (take (length s0 - length t) s0 #
                map (\<lambda>i. case c i of None \<Rightarrow> [] | Some g \<Rightarrow> g) [1 ..< Suc (NumSubexp r)]))"

definition FindString :: "regex \<Rightarrow> string \<Rightarrow> string" where
  "FindString r s = (case FindStringSubmatch r s of Some (w # _) \<Rightarrow> w | _ \<Rightarrow> [])"

definition MatchString :: "regex \<Rightarrow> string \<Rightarrow> bool" where
  "MatchString r s = (find_from r s \<noteq> None)"


section \<open>Errors\<close>

text \<open>
  A Go \<^verbatim>\<open>error\<close> value is represented by its message, a run-time panic by its own
  constructor. Every function of the program that can return an error or panic has a
  result of type \<open>error + 'a\<close>.
\<close>

datatype error = Err string | Panic string

text \<open>
  A \<^verbatim>\<open>for ... range\<close> loop over a slice whose body may fail: the loop stops at the first
  failure.
\<close>

fun foldE :: "('a \<Rightarrow> 's \<Rightarrow> error + 's) \<Rightarrow> 'a list \<Rightarrow> 's \<Rightarrow> error + 's" where
  "foldE f [] s = Inr s"
| "foldE f (x # xs) s = (case f x s of Inl e \<Rightarrow> Inl e | Inr s' \<Rightarrow> foldE f xs s')"

text \<open>Indexing a slice panics out of range.\<close>

definition index :: "'a list \<Rightarrow> nat \<Rightarrow> error + 'a" where
  "index xs i = (if i < length xs then Inr (xs ! i) else Inl (Panic ''index out of range''))"

text \<open>
  A Go map is represented by an association list with distinct keys: \<open>map_of\<close> reads it,
  and \<open>AList.update\<close> writes it. A \<^verbatim>\<open>range\<close> over a map visits the entries in an order
  that Go leaves unspecified and that may differ from one loop to the next. The order is
  a parameter of the model: \<open>order site keys\<close> is the order in which the loop \<open>site\<close>
  visits the keys of its map. The five loops of the program over a map are the sites;
  the loops over an inner map carry the namespace of that map. An order is fair when
  every loop visits every key once. \<open>listOrder\<close> visits the keys as the list has them.
\<close>

datatype site =
    RangeAcc
  | RangeAccImages string
  | RangeImagesByNs
  | RangeUniqImagesByNs
  | RangeVersionedImage string

type_synonym order = "site \<Rightarrow> string list \<Rightarrow> string list"

definition rangeMap :: "order \<Rightarrow> site \<Rightarrow> (string \<times> 'v) list \<Rightarrow> (string \<times> 'v) list" where
  "rangeMap order s m =
     concat (map (\<lambda>k. case map_of m k of None \<Rightarrow> [] | Some v \<Rightarrow> [(k, v)])
                 (order s (map fst m)))"

definition fair :: "order \<Rightarrow> bool" where
  "fair order \<longleftrightarrow> (\<forall>s keys. mset (order s keys) = mset keys)"

definition listOrder :: order where
  "listOrder s keys = keys"

section \<open>Package rules\<close>

record DetectionRuleYaml =
  applicationName :: string
  versionRegex :: string
  detectionRegex :: string

record DetectionConfigFile =
  DockerImages :: "DetectionRuleYaml list"

record Rule =
  ApplicationName :: string
  VersionRegex :: regex
  DetectionRegex :: regex

text \<open>
  The loop of \<^verbatim>\<open>LoadRules\<close> over the entries of the document, with the slice \<^verbatim>\<open>rules\<close>
  built so far. \<open>Compile\<close> stands for \<^verbatim>\<open>regexp.Compile\<close>: the text of a pattern to the
  message of a syntax error or to the compiled expression.
\<close>

fun compileRules ::
  "(string \<Rightarrow> string + regex) \<Rightarrow> DetectionRuleYaml list \<Rightarrow> Rule list \<Rightarrow> error + Rule list" where
  "compileRules Compile [] rules = Inr rules"
| "compileRules Compile (r # rs) rules =
     (case Compile (detectionRegex r) of
        Inl err \<Rightarrow> Inl (Err (''invalid detection regex for '' @ applicationName r @ '': '' @ err))
      | Inr detectRe \<Rightarrow>
          (case Compile (versionRegex r) of
             Inl err \<Rightarrow> Inl (Err (''invalid version regex for '' @ applicationName r @ '': '' @ err))
           | Inr versionRe \<Rightarrow>
               compileRules Compile rs
                 (rules @ [\<lparr>ApplicationName = applicationName r,
                            VersionRegex = versionRe,
                            DetectionRegex = detectRe\<rparr>])))"

text \<open>
  \<open>ReadFile\<close> stands for \<^verbatim>\<open>os.ReadFile\<close> and \<open>Unmarshal\<close> for \<^verbatim>\<open>yaml.Unmarshal\<close> into a
  \<^verbatim>\<open>DetectionConfigFile\<close>; a document without the key \<^verbatim>\<open>docker\<close> leaves \<open>DockerImages\<close>
  empty.
\<close>

definition LoadRules ::
  "(string \<Rightarrow> string + string) \<Rightarrow> (string \<Rightarrow> string + DetectionConfigFile) \<Rightarrow>
   (string \<Rightarrow> string + regex) \<Rightarrow> string \<Rightarrow> error + Rule list" where
  "LoadRules ReadFile Unmarshal Compile path =
     (case ReadFile path of
        Inl err \<Rightarrow> Inl (Err err)
      | Inr data \<Rightarrow>
          (case Unmarshal data of
             Inl err \<Rightarrow> Inl (Err err)
           | Inr rf \<Rightarrow> compileRules Compile (DockerImages rf) []))"

section \<open>Package main\<close>

record HelmChartInfo =
  ChartName :: string
  Version :: string
  Namespace :: string

record ClusterInfo =
  ClusterName :: string
  KubeVersion :: string
  HelmCharts :: "HelmChartInfo list"

text \<open>
  The part of the Kubernetes API that the program reads: the names of the namespaces,
  the pod specifications of the deployments, stateful sets and daemon sets of a
  namespace, and the version of the server. Each call returns its items or the message
  of its error.
\<close>

record Container =
  Image :: string

record PodSpec =
  Containers :: "Container list"
  InitContainers :: "Container list"

record Client =
  Namespaces :: "string + string list"
  Deployments :: "string \<Rightarrow> string + PodSpec list"
  StatefulSets :: "string \<Rightarrow> string + PodSpec list"
  DaemonSets :: "string \<Rightarrow> string + PodSpec list"
  ServerVersion :: "string + string"

subsection \<open>Collecting the images\<close>

type_synonym image_acc = "(string \<times> (string \<times> int) list) list"

text \<open>
  The assignment \<^verbatim>\<open>acc[ns][c.Image] = 1\<close>: a write into the inner map of \<open>ns\<close>, which
  panics when \<open>acc\<close> has no inner map for \<open>ns\<close> (a write to a nil map).
\<close>

definition setImage :: "string \<Rightarrow> string \<Rightarrow> image_acc \<Rightarrow> error + image_acc" where
  "setImage ns img acc =
     (case map_of acc ns of
        None \<Rightarrow> Inl (Panic ''assignment to entry in nil map'')
      | Some images \<Rightarrow> Inr (AList.update ns (AList.update img 1 images) acc))"

definition collectImages :: "PodSpec \<Rightarrow> string \<Rightarrow> image_acc \<Rightarrow> error + image_acc" where
  "collectImages spec ns acc =
     (case foldE (\<lambda>c. setImage ns (Image c)) (Containers spec) acc of
        Inl e \<Rightarrow> Inl e
      | Inr acc' \<Rightarrow> foldE (\<lambda>c. setImage ns (Image c)) (InitContainers spec) acc')"

definition collectFromDeployments :: "Client \<Rightarrow> string \<Rightarrow> image_acc \<Rightarrow> error + image_acc" where
  "collectFromDeployments client ns acc =
     (case Deployments client ns of
        Inl err \<Rightarrow> Inl (Err err)
      | Inr deploys \<Rightarrow> foldE (\<lambda>d. collectImages d ns) deploys acc)"

definition collectFromStatefulSets :: "Client \<Rightarrow> string \<Rightarrow> image_acc \<Rightarrow> error + image_acc" where
  "collectFromStatefulSets client ns acc =
     (case StatefulSets client ns of
        Inl err \<Rightarrow> Inl (Err err)
      | Inr sets \<Rightarrow> foldE (\<lambda>s. collectImages s ns) sets acc)"

definition collectFromDaemonSets :: "Client \<Rightarrow> string \<Rightarrow> image_acc \<Rightarrow> error + image_acc" where
  "collectFromDaemonSets client ns acc =
     (case DaemonSets client ns of
        Inl err \<Rightarrow> Inl (Err err)
      | Inr sets \<Rightarrow> foldE (\<lambda>d. collectImages d ns) sets acc)"

text \<open>The body of the loop of \<^verbatim>\<open>CollectNamespaceImages\<close> over the namespaces.\<close>

definition collectNamespace :: "Client \<Rightarrow> string \<Rightarrow> image_acc \<Rightarrow> error + image_acc" where
  "collectNamespace client nsName acc =
     (let acc1 = (if map_of acc nsName = None then AList.update nsName [] acc else acc)
      in case collectFromDeployments client nsName acc1 of
           Inl e \<Rightarrow> Inl e
         | Inr acc2 \<Rightarrow>
             (case collectFromStatefulSets client nsName acc2 of
                Inl e \<Rightarrow> Inl e
              | Inr acc3 \<Rightarrow> collectFromDaemonSets client nsName acc3))"

text \<open>
  The last loop of \<^verbatim>\<open>CollectNamespaceImages\<close>: every image of every inner map is appended
  to the slice of its namespace; a namespace without images gets no entry.
\<close>

definition appendImage :: "string \<Rightarrow> string \<Rightarrow> (string \<times> string list) list \<Rightarrow> (string \<times> string list) list" where
  "appendImage ns img result =
     AList.update ns ((case map_of result ns of None \<Rightarrow> [] | Some imgs \<Rightarrow> imgs) @ [img]) result"

definition normalizeAcc :: "order \<Rightarrow> image_acc \<Rightarrow> (string \<times> string list) list" where
  "normalizeAcc order acc =
     fold (\<lambda>(ns, images) result.
             fold (\<lambda>(img, _) result'. appendImage ns img result')
                  (rangeMap order (RangeAccImages ns) images) result)
          (rangeMap order RangeAcc acc) []"

definition CollectNamespaceImages ::
  "order \<Rightarrow> Client \<Rightarrow> error + (string \<times> string list) list" where
  "CollectNamespaceImages order client =
     (case Namespaces client of
        Inl err \<Rightarrow> Inl (Err err)
      | Inr namespaces \<Rightarrow>
          (case foldE (collectNamespace client) namespaces [] of
             Inl e \<Rightarrow> Inl e
           | Inr acc \<Rightarrow> Inr (normalizeAcc order acc)))"

subsection \<open>Normalizing a version\<close>

text \<open>The pattern \<^verbatim>\<open>(\d+)\.(\d+)(\.\d+)?\<close> that \<^verbatim>\<open>main\<close> compiles.\<close>

definition versionRe :: regex where
  "versionRe =
     Seq (Group 1 (Plus Digit))
      (Seq (Chr CHR ''.'')
        (Seq (Group 2 (Plus Digit))
          (Opt (Group 3 (Seq (Chr CHR ''.'') (Plus Digit))))))"

text \<open>
  The result is Go's pair of the version and the flag \<^verbatim>\<open>ok\<close>: \<open>(v, True)\<close> is the
  version \<open>v\<close>, and \<open>([], False)\<close> says that there is no version.
\<close>

definition normalizeSemVer :: "string \<Rightarrow> regex \<Rightarrow> error + (string \<times> bool)" where
  "normalizeSemVer imageVer re =
     (case FindStringSubmatch re imageVer of
        None \<Rightarrow> Inr ([], False)
      | Some m \<Rightarrow>
          (case index m 1 of
             Inl e \<Rightarrow> Inl e
           | Inr major \<Rightarrow>
               (case index m 2 of
                  Inl e \<Rightarrow> Inl e
                | Inr minor \<Rightarrow>
                    (case index m 3 of
                       Inl e \<Rightarrow> Inl e
                     | Inr patch \<Rightarrow>
                         Inr (major @ ''.'' @ minor @ (if patch = [] then ''.0'' else patch),
                              True)))))"

subsection \<open>Matching the rules and building the report\<close>

type_synonym versions = "(string \<times> (string \<times> string) list) list"

text \<open>
  The two assignments \<^verbatim>\<open>uniqImagesByNs[ns] = make(...)\<close> (for a namespace seen for the
  first time) and \<^verbatim>\<open>uniqImagesByNs[ns][rule.ApplicationName] = v\<close>.
\<close>

definition setVersion :: "string \<Rightarrow> string \<Rightarrow> string \<Rightarrow> versions \<Rightarrow> versions" where
  "setVersion ns app v uniqImagesByNs =
     (let uniq1 = (if map_of uniqImagesByNs ns = None then AList.update ns [] uniqImagesByNs
                   else uniqImagesByNs)
      in AList.update ns
           (AList.update app v (case map_of uniq1 ns of None \<Rightarrow> [] | Some m \<Rightarrow> m)) uniq1)"

text \<open>The body of the loop over the rules, for the image \<open>img\<close> of the namespace \<open>ns\<close>.\<close>

definition matchRule :: "string \<Rightarrow> string \<Rightarrow> Rule \<Rightarrow> versions \<Rightarrow> error + versions" where
  "matchRule ns img rule uniqImagesByNs =
     (if MatchString (DetectionRegex rule) img then
        (case normalizeSemVer (FindString (VersionRegex rule) img) versionRe of
           Inl e \<Rightarrow> Inl e
         | Inr (v, ok) \<Rightarrow>
             if ok then Inr (setVersion ns (ApplicationName rule) v uniqImagesByNs)
             else Inr uniqImagesByNs)
      else Inr uniqImagesByNs)"

text \<open>
  The three nested loops of \<^verbatim>\<open>main\<close>: over the namespaces of \<open>imagesByNs\<close>, over the images
  of a namespace and over the rules. The body of the innermost loop has no \<^verbatim>\<open>break\<close>.
  \<open>matchNamespace\<close> is the body of the outer loop: the loops over the images of one
  namespace and over the rules.
\<close>

definition matchNamespace ::
  "Rule list \<Rightarrow> string \<Rightarrow> string list \<Rightarrow> versions \<Rightarrow> error + versions" where
  "matchNamespace rules ns images uniqImagesByNs =
     foldE (\<lambda>img. foldE (matchRule ns img) rules) images uniqImagesByNs"

definition matchImages ::
  "order \<Rightarrow> Rule list \<Rightarrow> (string \<times> string list) list \<Rightarrow> error + versions" where
  "matchImages order rules imagesByNs =
     foldE (\<lambda>(ns, images). matchNamespace rules ns images)
           (rangeMap order RangeImagesByNs imagesByNs) []"

text \<open>
  The loops of \<^verbatim>\<open>main\<close> that build \<^verbatim>\<open>imagesInstalled\<close>: in \<^verbatim>\<open>for v, i := range versionedImage\<close>
  the variable \<open>v\<close> is the key of the inner map and \<open>i\<close> its value.
\<close>

definition imagesInstalled :: "order \<Rightarrow> versions \<Rightarrow> HelmChartInfo list" where
  "imagesInstalled order uniqImagesByNs =
     concat (map (\<lambda>(ns, versionedImage).
                    map (\<lambda>(v, i). \<lparr>ChartName = i, Version = v, Namespace = ns\<rparr>)
                        (rangeMap order (RangeVersionedImage ns) versionedImage))
                 (rangeMap order RangeUniqImagesByNs uniqImagesByNs))"

definition getClusterName :: "string \<Rightarrow> string" where
  "getClusterName envClusterName = (if envClusterName \<noteq> [] then envClusterName else ''minikube'')"

definition getKubernetesVersion :: "Client \<Rightarrow> string" where
  "getKubernetesVersion clientset =
     (case ServerVersion clientset of Inl err \<Rightarrow> ''unknown-version'' | Inr gitVersion \<Rightarrow> gitVersion)"

text \<open>
  The part of \<^verbatim>\<open>main\<close> from the call of \<^verbatim>\<open>CollectNamespaceImages\<close> to the complete slice
  \<^verbatim>\<open>imagesInstalled\<close>, for the rules that were loaded.
\<close>

definition installedCharts ::
  "order \<Rightarrow> Rule list \<Rightarrow> Client \<Rightarrow> error + HelmChartInfo list" where
  "installedCharts order rules clientset =
     (case CollectNamespaceImages order clientset of
        Inl e \<Rightarrow> Inl e
      | Inr imagesByNs \<Rightarrow>
          (case matchImages order rules imagesByNs of
             Inl e \<Rightarrow> Inl e
           | Inr uniqImagesByNs \<Rightarrow> Inr (imagesInstalled order uniqImagesByNs)))"

text \<open>
  \<^verbatim>\<open>main\<close> from the loading of the rules to the value that is serialized and sent: the
  result is the error with which the program exits, or the \<^verbatim>\<open>ClusterInfo\<close>. The
  arguments are the three library functions of \<open>LoadRules\<close>, the settings \<^verbatim>\<open>RULES_FILE\<close>
  and \<^verbatim>\<open>CLUSTER_NAME\<close> of the environment, the client of the cluster, and the order of
  the loops over maps.
\<close>

definition main ::
  "(string \<Rightarrow> string + string) \<Rightarrow> (string \<Rightarrow> string + DetectionConfigFile) \<Rightarrow>
   (string \<Rightarrow> string + regex) \<Rightarrow> string \<Rightarrow> string \<Rightarrow> Client \<Rightarrow> order \<Rightarrow>
   error + ClusterInfo" where
  "main ReadFile Unmarshal Compile RULES_FILE CLUSTER_NAME clientset order =
     (case LoadRules ReadFile Unmarshal Compile RULES_FILE of
        Inl e \<Rightarrow> Inl e
      | Inr rules \<Rightarrow>
          (case installedCharts order rules clientset of
             Inl e \<Rightarrow> Inl e
           | Inr charts \<Rightarrow>
               Inr \<lparr>ClusterName = getClusterName CLUSTER_NAME,
                    KubeVersion = getKubernetesVersion clientset,
                    HelmCharts = charts\<rparr>))"

section \<open>Shapes of version strings\<close>

text \<open>
  Two tests on the text that follows a run of digits, used to state what the matcher
  does: whether it starts with a digit, and whether it starts with a dot and a digit (a
  patch component).
\<close>

definition starts_digit :: "string \<Rightarrow> bool" where
  "starts_digit s = (case s of [] \<Rightarrow> False | x # _ \<Rightarrow> is_digit x)"

definition starts_patch :: "string \<Rightarrow> bool" where
  "starts_patch s = (case s of x # y # _ \<Rightarrow> x = CHR ''.'' \<and> is_digit y | _ \<Rightarrow> False)"

text \<open>
  The version that begins at the first byte of a string, written out from the words of
  the specification: a longest run of digits, a dot and a longest run of digits, with the
  patch that follows (a dot and a longest run of digits) or else the patch \<^verbatim>\<open>0\<close>; and
  the version of the leftmost place of a string at which a version begins.
\<close>

definition version_at :: "string \<Rightarrow> string option" where
  "version_at s =
     (let major = takeWhile is_digit s; s1 = dropWhile is_digit s
      in if major = [] then None
         else case s1 of
             [] \<Rightarrow> None
           | x # s2 \<Rightarrow>
               if x \<noteq> CHR ''.'' then None
               else let minor = takeWhile is_digit s2; s3 = dropWhile is_digit s2
                    in if minor = [] then None
                       else Some (major @ ''.'' @ minor @
                                  (if starts_patch s3 then ''.'' @ takeWhile is_digit (tl s3)
                                   else ''.0'')))"

fun leftmost_version :: "string \<Rightarrow> string option" where
  "leftmost_version [] = None"
| "leftmost_version (x # s) =
     (case version_at (x # s) of Some v \<Rightarrow> Some v | None \<Rightarrow> leftmost_version s)"

section \<open>Notions used in the statements\<close>

text \<open>
  For a map of maps: the keys of the inner map of \<open>k\<close> (none when \<open>k\<close> has no inner
  map), and the property that the keys of the outer list and of every inner list are
  distinct, as the keys of a Go map are.
\<close>

definition keys_of :: "('k \<times> ('a \<times> 'b) list) list \<Rightarrow> 'k \<Rightarrow> 'a list" where
  "keys_of m k = (case map_of m k of None \<Rightarrow> [] | Some inner \<Rightarrow> map fst inner)"

definition distinct_keys :: "('k \<times> ('a \<times> 'b) list) list \<Rightarrow> bool" where
  "distinct_keys m \<longleftrightarrow>
     distinct (map fst m) \<and> list_all (\<lambda>(k, inner). distinct (map fst inner)) m"

text \<open>
  The image strings of the main and init containers of a pod specification, those of a
  list of workloads, and those of all workloads of a namespace as the client reports
  them. A namespace is listable when the three calls for it succeed.
\<close>

definition podImages :: "PodSpec \<Rightarrow> string list" where
  "podImages spec = map Image (Containers spec) @ map Image (InitContainers spec)"

definition workloadImages :: "PodSpec list \<Rightarrow> string list" where
  "workloadImages specs = concat (map podImages specs)"

definition namespaceImages :: "Client \<Rightarrow> string \<Rightarrow> string list" where
  "namespaceImages client ns =
     (case Deployments client ns of
        Inl _ \<Rightarrow> []
      | Inr deploys \<Rightarrow>
          (case StatefulSets client ns of
             Inl _ \<Rightarrow> []
           | Inr ssets \<Rightarrow>
               (case DaemonSets client ns of
                  Inl _ \<Rightarrow> []
                | Inr dsets \<Rightarrow> workloadImages (deploys @ ssets @ dsets))))"

definition listable :: "Client \<Rightarrow> string \<Rightarrow> bool" where
  "listable client ns \<longleftrightarrow>
     \<not> isl (Deployments client ns) \<and> \<not> isl (StatefulSets client ns) \<and>
     \<not> isl (DaemonSets client ns)"

text \<open>
  \<open>extends acc acc' ns X\<close>: the accumulator \<open>acc'\<close> is \<open>acc\<close> with the images \<open>X\<close> added
  to the namespace \<open>ns\<close>.
\<close>

definition extends :: "image_acc \<Rightarrow> image_acc \<Rightarrow> string \<Rightarrow> string set \<Rightarrow> bool" where
  "extends acc acc' ns X \<longleftrightarrow>
     distinct_keys acc' \<and> fst ` set acc' = fst ` set acc \<and>
     set (keys_of acc' ns) = set (keys_of acc ns) \<union> X \<and>
     (\<forall>n. n \<noteq> ns \<longrightarrow> map_of acc' n = map_of acc n)"

text \<open>
  A rule resolves the version \<open>v\<close> for an image when its detection pattern matches the
  image and the text found by its version pattern normalizes to \<open>v\<close>. \<open>version_of\<close> reads
  the aggregate: the version recorded for an application in a namespace. An aggregate is
  justified when each of its entries comes from an image of its namespace and a rule of
  its application that resolves its version.
\<close>

definition resolves :: "Rule \<Rightarrow> string \<Rightarrow> string \<Rightarrow> bool" where
  "resolves rule img v \<longleftrightarrow>
     MatchString (DetectionRegex rule) img \<and>
     normalizeSemVer (FindString (VersionRegex rule) img) versionRe = Inr (v, True)"

definition version_of :: "versions \<Rightarrow> string \<Rightarrow> string \<Rightarrow> string option" where
  "version_of uniqImagesByNs ns app =
     (case map_of uniqImagesByNs ns of None \<Rightarrow> None | Some m \<Rightarrow> map_of m app)"

definition justified :: "Rule list \<Rightarrow> (string \<times> string list) list \<Rightarrow> versions \<Rightarrow> bool" where
  "justified rules imagesByNs uniq \<longleftrightarrow>
     (\<forall>ns m app v. (ns, m) \<in> set uniq \<longrightarrow> (app, v) \<in> set m \<longrightarrow>
        (\<exists>images img rule. (ns, images) \<in> set imagesByNs \<and> img \<in> set images \<and>
           rule \<in> set rules \<and> ApplicationName rule = app \<and> resolves rule img v))"

text \<open>
  An entry of the document compiles when \<open>Compile\<close> accepts both of its patterns; a rule
  is the compiled form of an entry when it has the entry's name and the two compiled
  patterns.
\<close>

definition compiles :: "(string \<Rightarrow> string + regex) \<Rightarrow> DetectionRuleYaml \<Rightarrow> bool" where
  "compiles Compile r =
     (case Compile (detectionRegex r) of
        Inl _ \<Rightarrow> False
      | Inr _ \<Rightarrow> (case Compile (versionRegex r) of Inl _ \<Rightarrow> False | Inr _ \<Rightarrow> True))"

definition compiled :: "(string \<Rightarrow> string + regex) \<Rightarrow> DetectionRuleYaml \<Rightarrow> Rule \<Rightarrow> bool" where
  "compiled Compile y r \<longleftrightarrow>
     ApplicationName r = applicationName y \<and>
     Compile (detectionRegex y) = Inr (DetectionRegex r) \<and>
     Compile (versionRegex y) = Inr (VersionRegex r)"

section \<open>Example data\<close>

text \<open>
  The rule of the end-to-end scenario of the specification: the application \<^verbatim>\<open>redis\<close>
  with the detection pattern \<^verbatim>\<open>redis\<close> and the version pattern \<^verbatim>\<open>redis:(\d+\.\d+\.\d+)\<close>,
  both in compiled form.
\<close>

definition redisDetection :: regex where
  "redisDetection =
     Seq (Chr CHR ''r'') (Seq (Chr CHR ''e'') (Seq (Chr CHR ''d'') (Seq (Chr CHR ''i'') (Chr CHR ''s''))))"

definition redisVersion :: regex where
  "redisVersion =
     Seq redisDetection
      (Seq (Chr CHR '':'')
        (Group 1
          (Seq (Plus Digit)
            (Seq (Chr CHR ''.'') (Seq (Plus Digit) (Seq (Chr CHR ''.'') (Plus Digit)))))))"

definition redisRule :: Rule where
  "redisRule = \<lparr>ApplicationName = ''redis'', VersionRegex = redisVersion, DetectionRegex = redisDetection\<rparr>"

text \<open>
  The document of the scenario after parsing, with the texts of the two patterns (the
  byte \<open>0x5C\<close> is the backslash), and \<^verbatim>\<open>regexp.Compile\<close> on these two texts.
\<close>

definition redisVersionText :: string where
  "redisVersionText =
     ''redis:('' @ [CHR 0x5C] @ ''d+'' @ [CHR 0x5C] @ ''.'' @ [CHR 0x5C] @ ''d+'' @
     [CHR 0x5C] @ ''.'' @ [CHR 0x5C] @ ''d+)''"

definition redisDocument :: DetectionConfigFile where
  "redisDocument =
     \<lparr>DockerImages =
        [\<lparr>applicationName = ''redis'', versionRegex = redisVersionText,
          detectionRegex = ''redis''\<rparr>]\<rparr>"

definition compileRedis :: "string \<Rightarrow> string + regex" where
  "compileRedis pattern =
     (if pattern = ''redis'' then Inr redisDetection
      else if pattern = redisVersionText then Inr redisVersion
      else Inl ''pattern outside the example'')"

text \<open>
  A cluster with the single namespace \<^verbatim>\<open>ns1\<close>, whose only workload is a deployment
  with two containers, both of the image \<^verbatim>\<open>redis:7.2.4\<close>.
\<close>

definition ns1Client :: Client where
  "ns1Client =
     \<lparr>Namespaces = Inr [''ns1''],
      Deployments = (\<lambda>ns. if ns = ''ns1''
         then Inr [\<lparr>Containers = [\<lparr>Image = ''redis:7.2.4''\<rparr>, \<lparr>Image = ''redis:7.2.4''\<rparr>],
                    InitContainers = []\<rparr>]
         else Inr []),
      StatefulSets = (\<lambda>ns. Inr []),
      DaemonSets = (\<lambda>ns. Inr []),
      ServerVersion = Inr ''v1.30.0''\<rparr>"

text \<open>
  A second rule with the same patterns under another name, and a cluster with two
  namespaces: \<^verbatim>\<open>ns1\<close> runs \<^verbatim>\<open>redis:7.2.4\<close>, and \<^verbatim>\<open>ns2\<close> runs \<^verbatim>\<open>redis:latest\<close>, which the
  detection pattern matches and in which the version pattern finds nothing.
\<close>

definition redisStackRule :: Rule where
  "redisStackRule =
     \<lparr>ApplicationName = ''redis-stack'', VersionRegex = redisVersion, DetectionRegex = redisDetection\<rparr>"

definition twoNsClient :: Client where
  "twoNsClient =
     \<lparr>Namespaces = Inr [''ns1'', ''ns2''],
      Deployments = (\<lambda>ns. if ns = ''ns1''
         then Inr [\<lparr>Containers = [\<lparr>Image = ''redis:7.2.4''\<rparr>], InitContainers = []\<rparr>]
         else Inr []),
      StatefulSets = (\<lambda>ns. if ns = ''ns2''
         then Inr [\<lparr>Containers = [\<lparr>Image = ''redis:latest''\<rparr>], InitContainers = []\<rparr>]
         else Inr []),
      DaemonSets = (\<lambda>ns. Inr []),
      ServerVersion = Inr ''v1.30.0''\<rparr>"

section \<open>Properties of the matcher\<close>

declare parses.simps [simp del]
declare find_from.simps [simp del]

lemma starts_digit_simps [simp]:
  "starts_digit [] = False" "starts_digit (x # s) = is_digit x"
  by (simp_all add: starts_digit_def)

lemma starts_patch_simps [simp]:
  "starts_patch [] = False" "starts_patch [x] = False"
  "starts_patch (x # y # s) = (x = CHR ''.'' \<and> is_digit y)"
  by (simp_all add: starts_patch_def)

lemma not_is_digit_dot [simp]: "\<not> is_digit CHR ''.''"
  by (simp add: is_digit_def)

subsection \<open>First results of the matcher\<close>

lemma parses_Chr_Cons: "parses (Chr a) (x # t) c = (if x = a then [(t, c)] else [])"
  by (simp add: parses.simps)

lemma parses_Chr_Nil: "parses (Chr a) [] c = []"
  by (simp add: parses.simps)

lemma parses_Seq_first:
  "parses r1 s c = (t, c1) # xs \<Longrightarrow> parses r2 t c1 = q # ys \<Longrightarrow>
   \<exists>zs. parses (Seq r1 r2) s c = q # zs"
  by (simp add: parses.simps)

lemma parses_Seq_nil: "parses r1 s c = [] \<Longrightarrow> parses (Seq r1 r2) s c = []"
  by (simp add: parses.simps)

lemma parses_Opt_first: "parses r s c = q # ys \<Longrightarrow> \<exists>zs. parses (Opt r) s c = q # zs"
  by (simp add: parses.simps)

lemma parses_Opt_nil: "parses r s c = [] \<Longrightarrow> parses (Opt r) s c = [(s, c)]"
  by (simp add: parses.simps)

lemma parses_Group_first:
  "parses r s c = (t, c1) # xs \<Longrightarrow>
   \<exists>zs. parses (Group n r) s c = (t, c1(n \<mapsto> take (length s - length t) s)) # zs"
  by (simp add: parses.simps)

lemma parses_Group_nil: "parses r s c = [] \<Longrightarrow> parses (Group n r) s c = []"
  by (simp add: parses.simps)

lemma parses_Digit_nil: "\<not> starts_digit s \<Longrightarrow> parses Digit s c = []"
  by (cases s) (simp_all add: parses.simps)

lemma parses_Plus_Digit_nil: "\<not> starts_digit s \<Longrightarrow> parses (Plus Digit) s c = []"
  by (simp add: parses_Digit_nil parses.simps(4))

lemma parses_Plus_Digit_step:
  "is_digit x \<Longrightarrow>
   parses (Plus Digit) (x # s) c
     = filter (\<lambda>q. length (fst q) < length s) (parses (Plus Digit) s c) @ [(s, c)]"
  by (subst parses.simps(4)) (simp add: parses.simps(2))

lemma parses_Plus_Digit_progress:
  "q \<in> set (parses (Plus Digit) s c) \<Longrightarrow> length (fst q) < length s"
proof (induction s arbitrary: q)
  case Nil
  then show ?case by (simp add: parses_Plus_Digit_nil)
next
  case (Cons x s)
  show ?case
  proof (cases "is_digit x")
    case False
    with Cons.prems show ?thesis by (simp add: parses_Plus_Digit_nil)
  next
    case True
    with Cons.prems show ?thesis by (auto simp: parses_Plus_Digit_step)
  qed
qed

lemma parses_Plus_Digit_Cons:
  "is_digit x \<Longrightarrow> parses (Plus Digit) (x # s) c = parses (Plus Digit) s c @ [(s, c)]"
proof -
  assume "is_digit x"
  have "filter (\<lambda>q. length (fst q) < length s) (parses (Plus Digit) s c) = parses (Plus Digit) s c"
    by (rule filter_True) (simp add: parses_Plus_Digit_progress)
  with \<open>is_digit x\<close> show ?thesis by (simp add: parses_Plus_Digit_step)
qed

lemma parses_Plus_Digit_first:
  "d \<noteq> [] \<Longrightarrow> list_all is_digit d \<Longrightarrow> \<not> starts_digit rest \<Longrightarrow>
   \<exists>ys. parses (Plus Digit) (d @ rest) c = (rest, c) # ys"
proof (induction d)
  case Nil
  then show ?case by simp
next
  case (Cons x d)
  from Cons.prems have x: "is_digit x" by simp
  show ?case
  proof (cases "d = []")
    case True
    with Cons.prems x show ?thesis
      by (simp add: parses_Plus_Digit_Cons parses_Plus_Digit_nil)
  next
    case False
    with Cons obtain ys where "parses (Plus Digit) (d @ rest) c = (rest, c) # ys" by auto
    with x show ?thesis by (simp add: parses_Plus_Digit_Cons)
  qed
qed

lemma parses_Plus_Digit_sound:
  "p \<in> set (parses (Plus Digit) s c) \<Longrightarrow>
   snd p = c \<and> (\<exists>d. d \<noteq> [] \<and> list_all is_digit d \<and> s = d @ fst p)"
proof (induction s arbitrary: p)
  case Nil
  then show ?case by (simp add: parses_Plus_Digit_nil)
next
  case (Cons x s)
  show ?case
  proof (cases "is_digit x")
    case False
    with Cons.prems show ?thesis by (simp add: parses_Plus_Digit_nil)
  next
    case True
    with Cons.prems have "p \<in> set (parses (Plus Digit) s c) \<or> p = (s, c)"
      by (auto simp: parses_Plus_Digit_Cons)
    then show ?thesis
    proof
      assume "p \<in> set (parses (Plus Digit) s c)"
      from Cons.IH [OF this] obtain d where "snd p = c" "d \<noteq> []" "list_all is_digit d" "s = d @ fst p"
        by auto
      with True have "x # d \<noteq> [] \<and> list_all is_digit (x # d) \<and> x # s = (x # d) @ fst p" by simp
      with \<open>snd p = c\<close> show ?thesis by blast
    next
      assume "p = (s, c)"
      with True have "snd p = c \<and> [x] \<noteq> [] \<and> list_all is_digit [x] \<and> x # s = [x] @ fst p" by simp
      then show ?thesis by blast
    qed
  qed
qed

lemma parses_dot_digits_nil:
  "\<not> starts_patch s \<Longrightarrow> parses (Seq (Chr CHR ''.'') (Plus Digit)) s c = []"
proof (cases s)
  case Nil
  then show ?thesis by (simp add: parses_Seq_nil parses_Chr_Nil)
next
  case (Cons x t)
  assume np: "\<not> starts_patch s"
  show ?thesis
  proof (cases "x = CHR ''.''")
    case False
    with Cons show ?thesis by (simp add: parses_Seq_nil parses_Chr_Cons)
  next
    case True
    with np Cons have "\<not> starts_digit t" by (cases t) simp_all
    with True Cons show ?thesis
      by (simp add: parses.simps(3) parses_Chr_Cons parses_Plus_Digit_nil)
  qed
qed

lemma parses_dot_digits_first:
  assumes "d \<noteq> []" "list_all is_digit d" "\<not> starts_digit rest"
  shows "\<exists>ys. parses (Seq (Chr CHR ''.'') (Plus Digit)) (CHR ''.'' # d @ rest) c = (rest, c) # ys"
proof -
  from parses_Plus_Digit_first [OF assms] obtain ys
    where "parses (Plus Digit) (d @ rest) c = (rest, c) # ys" by blast
  then show ?thesis by (simp add: parses.simps(3) parses_Chr_Cons)
qed

lemma parses_group_digits_first:
  assumes "d \<noteq> []" "list_all is_digit d" "\<not> starts_digit rest"
  shows "\<exists>ys. parses (Group n (Plus Digit)) (d @ rest) c = (rest, c(n \<mapsto> d)) # ys"
proof -
  from parses_Plus_Digit_first [OF assms] obtain ys
    where "parses (Plus Digit) (d @ rest) c = (rest, c) # ys" by blast
  from parses_Group_first [OF this] show ?thesis by simp
qed

lemma parses_dot_Seq_first:
  "parses r t c = q # ys \<Longrightarrow> \<exists>zs. parses (Seq (Chr CHR ''.'') r) (CHR ''.'' # t) c = q # zs"
  by (simp add: parses.simps(3) parses_Chr_Cons)

lemma parses_versionRe_no_patch:
  assumes d1: "d1 \<noteq> []" "list_all is_digit d1" and d2: "d2 \<noteq> []" "list_all is_digit d2"
    and rest: "\<not> starts_digit rest" "\<not> starts_patch rest"
  shows "\<exists>ys. parses versionRe (d1 @ CHR ''.'' # d2 @ rest) c = (rest, c(1 \<mapsto> d1, 2 \<mapsto> d2)) # ys"
proof -
  let ?c2 = "c(1 \<mapsto> d1, 2 \<mapsto> d2)"
  let ?patch = "Opt (Group 3 (Seq (Chr CHR ''.'') (Plus Digit)))"
  have "\<not> starts_digit (CHR ''.'' # d2 @ rest)" by simp
  from parses_group_digits_first [OF d1 this] obtain ys1 where
    g1: "parses (Group 1 (Plus Digit)) (d1 @ CHR ''.'' # d2 @ rest) c
         = (CHR ''.'' # d2 @ rest, c(1 \<mapsto> d1)) # ys1" by blast
  from parses_group_digits_first [OF d2 rest(1)] obtain ys2 where
    g2: "parses (Group 2 (Plus Digit)) (d2 @ rest) (c(1 \<mapsto> d1)) = (rest, ?c2) # ys2" by blast
  have g3: "parses ?patch rest ?c2 = [(rest, ?c2)]"
    by (rule parses_Opt_nil, rule parses_Group_nil, rule parses_dot_digits_nil, rule rest(2))
  from parses_Seq_first [OF g2 g3] obtain ys4 where
    g4: "parses (Seq (Group 2 (Plus Digit)) ?patch) (d2 @ rest) (c(1 \<mapsto> d1)) = (rest, ?c2) # ys4"
    by blast
  from parses_dot_Seq_first [OF g4] obtain ys5 where
    g5: "parses (Seq (Chr CHR ''.'') (Seq (Group 2 (Plus Digit)) ?patch)) (CHR ''.'' # d2 @ rest)
           (c(1 \<mapsto> d1)) = (rest, ?c2) # ys5"
    by blast
  from parses_Seq_first [OF g1 g5] show ?thesis
    unfolding versionRe_def .
qed

lemma parses_versionRe_patch:
  assumes d1: "d1 \<noteq> []" "list_all is_digit d1" and d2: "d2 \<noteq> []" "list_all is_digit d2"
    and d3: "d3 \<noteq> []" "list_all is_digit d3" and rest: "\<not> starts_digit rest"
  shows "\<exists>ys. parses versionRe (d1 @ CHR ''.'' # d2 @ CHR ''.'' # d3 @ rest) c
              = (rest, c(1 \<mapsto> d1, 2 \<mapsto> d2, 3 \<mapsto> CHR ''.'' # d3)) # ys"
proof -
  let ?c2 = "c(1 \<mapsto> d1, 2 \<mapsto> d2)"
  let ?c3 = "c(1 \<mapsto> d1, 2 \<mapsto> d2, 3 \<mapsto> CHR ''.'' # d3)"
  let ?patch = "Opt (Group 3 (Seq (Chr CHR ''.'') (Plus Digit)))"
  let ?s3 = "CHR ''.'' # d3 @ rest"
  have "\<not> starts_digit (CHR ''.'' # d2 @ ?s3)" by simp
  from parses_group_digits_first [OF d1 this] obtain ys1 where
    g1: "parses (Group 1 (Plus Digit)) (d1 @ CHR ''.'' # d2 @ ?s3) c
         = (CHR ''.'' # d2 @ ?s3, c(1 \<mapsto> d1)) # ys1" by blast
  have "\<not> starts_digit ?s3" by simp
  from parses_group_digits_first [OF d2 this] obtain ys2 where
    g2: "parses (Group 2 (Plus Digit)) (d2 @ ?s3) (c(1 \<mapsto> d1)) = (?s3, ?c2) # ys2" by blast
  from parses_dot_digits_first [OF d3 rest] obtain ys3 where
    "parses (Seq (Chr CHR ''.'') (Plus Digit)) ?s3 ?c2 = (rest, ?c2) # ys3" by blast
  from parses_Group_first [OF this] obtain ys3' where
    "parses (Group 3 (Seq (Chr CHR ''.'') (Plus Digit))) ?s3 ?c2 = (rest, ?c3) # ys3'"
    by auto
  from parses_Opt_first [OF this] obtain ys3'' where
    g3: "parses ?patch ?s3 ?c2 = (rest, ?c3) # ys3''" by blast
  from parses_Seq_first [OF g2 g3] obtain ys4 where
    g4: "parses (Seq (Group 2 (Plus Digit)) ?patch) (d2 @ ?s3) (c(1 \<mapsto> d1)) = (rest, ?c3) # ys4"
    by blast
  from parses_dot_Seq_first [OF g4] obtain ys5 where
    g5: "parses (Seq (Chr CHR ''.'') (Seq (Group 2 (Plus Digit)) ?patch)) (CHR ''.'' # d2 @ ?s3)
           (c(1 \<mapsto> d1)) = (rest, ?c3) # ys5"
    by blast
  from parses_Seq_first [OF g1 g5] show ?thesis
    unfolding versionRe_def .
qed


subsection \<open>All results of the matcher\<close>

lemma in_parses_Seq:
  "q \<in> set (parses (Seq r1 r2) s c) \<longleftrightarrow>
   (\<exists>p \<in> set (parses r1 s c). q \<in> set (parses r2 (fst p) (snd p)))"
  by (auto simp: parses.simps)

lemma in_parses_Group:
  "q \<in> set (parses (Group n r) s c) \<longleftrightarrow>
   (\<exists>p \<in> set (parses r s c). q = (fst p, (snd p)(n \<mapsto> take (length s - length (fst p)) s)))"
  by (auto simp: parses.simps)

lemma in_parses_Opt:
  "q \<in> set (parses (Opt r) s c) \<longleftrightarrow> q \<in> set (parses r s c) \<or> q = (s, c)"
  by (auto simp: parses.simps)

lemma in_parses_Chr:
  "q \<in> set (parses (Chr a) s c) \<longleftrightarrow> s = a # fst q \<and> snd q = c"
  by (cases s) (auto simp: parses.simps)

lemma in_parses_group_digits:
  assumes "q \<in> set (parses (Group n (Plus Digit)) s c)"
  shows "\<exists>d. d \<noteq> [] \<and> list_all is_digit d \<and> s = d @ fst q \<and> snd q = c(n \<mapsto> d)"
proof -
  from assms obtain p where p: "p \<in> set (parses (Plus Digit) s c)"
    and q: "q = (fst p, (snd p)(n \<mapsto> take (length s - length (fst p)) s))"
    unfolding in_parses_Group by blast
  from parses_Plus_Digit_sound [OF p] obtain d where
    d: "snd p = c" "d \<noteq> []" "list_all is_digit d" "s = d @ fst p" by blast
  from d(4) have "take (length s - length (fst p)) s = d" by simp
  with q d show ?thesis by auto
qed

lemma in_parses_patch:
  assumes "q \<in> set (parses (Opt (Group 3 (Seq (Chr CHR ''.'') (Plus Digit)))) s c)"
  shows "snd q = c \<or> (\<exists>d. d \<noteq> [] \<and> list_all is_digit d \<and> snd q = c(3 \<mapsto> CHR ''.'' # d))"
proof -
  from assms consider "q = (s, c)"
    | "q \<in> set (parses (Group 3 (Seq (Chr CHR ''.'') (Plus Digit))) s c)"
    unfolding in_parses_Opt by blast
  then show ?thesis
  proof cases
    case 1
    then show ?thesis by simp
  next
    case 2
    then obtain p where p: "p \<in> set (parses (Seq (Chr CHR ''.'') (Plus Digit)) s c)"
      and q: "q = (fst p, (snd p)(3 \<mapsto> take (length s - length (fst p)) s))"
      unfolding in_parses_Group by blast
    from p obtain p0 where p0: "p0 \<in> set (parses (Chr CHR ''.'') s c)"
      and p1: "p \<in> set (parses (Plus Digit) (fst p0) (snd p0))"
      unfolding in_parses_Seq by blast
    from p0 have s: "s = CHR ''.'' # fst p0" and c0: "snd p0 = c"
      unfolding in_parses_Chr by simp_all
    from parses_Plus_Digit_sound [OF p1] obtain d where
      d: "snd p = snd p0" "d \<noteq> []" "list_all is_digit d" "fst p0 = d @ fst p" by blast
    from s d(4) have "take (length s - length (fst p)) s = CHR ''.'' # d" by simp
    with q d c0 show ?thesis by auto
  qed
qed

lemma in_parses_versionRe:
  assumes "q \<in> set (parses versionRe s c)"
  shows "\<exists>d1 d2. d1 \<noteq> [] \<and> list_all is_digit d1 \<and> d2 \<noteq> [] \<and> list_all is_digit d2 \<and>
           snd q 1 = Some d1 \<and> snd q 2 = Some d2 \<and>
           (snd q 3 = c 3 \<or> (\<exists>d3. d3 \<noteq> [] \<and> list_all is_digit d3 \<and> snd q 3 = Some (CHR ''.'' # d3)))"
proof -
  let ?patch = "Opt (Group 3 (Seq (Chr CHR ''.'') (Plus Digit)))"
  from assms obtain p1 where p1: "p1 \<in> set (parses (Group 1 (Plus Digit)) s c)"
    and r1: "q \<in> set (parses (Seq (Chr CHR ''.'') (Seq (Group 2 (Plus Digit)) ?patch)) (fst p1) (snd p1))"
    unfolding versionRe_def in_parses_Seq [of q "Group 1 (Plus Digit)"] by blast
  from r1 obtain p2 where p2: "p2 \<in> set (parses (Chr CHR ''.'') (fst p1) (snd p1))"
    and r2: "q \<in> set (parses (Seq (Group 2 (Plus Digit)) ?patch) (fst p2) (snd p2))"
    unfolding in_parses_Seq [of q "Chr CHR ''.''"] by blast
  from r2 obtain p3 where p3: "p3 \<in> set (parses (Group 2 (Plus Digit)) (fst p2) (snd p2))"
    and r3: "q \<in> set (parses ?patch (fst p3) (snd p3))"
    unfolding in_parses_Seq [of q "Group 2 (Plus Digit)"] by blast
  from in_parses_group_digits [OF p1] obtain d1 where
    d1: "d1 \<noteq> []" "list_all is_digit d1" "snd p1 = c(1 \<mapsto> d1)" by blast
  from p2 have c2: "snd p2 = snd p1" unfolding in_parses_Chr by simp
  from in_parses_group_digits [OF p3] obtain d2 where
    d2: "d2 \<noteq> []" "list_all is_digit d2" "snd p3 = (snd p2)(2 \<mapsto> d2)" by blast
  from d1(3) c2 d2(3) have c3: "snd p3 = c(1 \<mapsto> d1, 2 \<mapsto> d2)" by simp
  from in_parses_patch [OF r3] consider "snd q = snd p3"
    | d3 where "d3 \<noteq> []" "list_all is_digit d3" "snd q = (snd p3)(3 \<mapsto> CHR ''.'' # d3)"
    by blast
  then show ?thesis
  proof cases
    case 1
    with c3 have "snd q 1 = Some d1" "snd q 2 = Some d2" "snd q 3 = c 3" by simp_all
    with d1 d2 show ?thesis by blast
  next
    case 2
    with c3 have "snd q 1 = Some d1" "snd q 2 = Some d2" "snd q 3 = Some (CHR ''.'' # d3)"
      by simp_all
    with d1 d2 2 show ?thesis by blast
  qed
qed

subsection \<open>The search\<close>

lemma find_from_first:
  "parses r s Map.empty = p # ys \<Longrightarrow> find_from r s = Some (s, fst p, snd p)"
  by (subst find_from.simps) simp

lemma find_from_skip:
  "parses r (x # s) Map.empty = [] \<Longrightarrow> find_from r (x # s) = find_from r s"
  by (subst find_from.simps) simp

lemma find_from_sound:
  "find_from r s = Some (s0, t, c) \<Longrightarrow> (t, c) \<in> set (parses r s0 Map.empty)"
proof (induction s)
  case Nil
  then show ?case
    by (subst (asm) find_from.simps) (auto split: list.splits)
next
  case (Cons x s)
  show ?case
  proof (cases "parses r (x # s) Map.empty")
    case Nil
    with Cons show ?thesis by (simp add: find_from_skip)
  next
    case (Cons p ys)
    from find_from_first [OF this] Cons.prems Cons show ?thesis by auto
  qed
qed

lemma FindStringSubmatch_versionRe:
  "FindStringSubmatch versionRe s =
     (case find_from versionRe s of
        None \<Rightarrow> None
      | Some (s0, t, c) \<Rightarrow>
          Some [take (length s0 - length t) s0,
                case c 1 of None \<Rightarrow> [] | Some g \<Rightarrow> g,
                case c 2 of None \<Rightarrow> [] | Some g \<Rightarrow> g,
                case c 3 of None \<Rightarrow> [] | Some g \<Rightarrow> g])"
proof -
  have "[1 ..< Suc (NumSubexp versionRe)] = [1, 2, 3]"
    by (simp add: versionRe_def upt_rec)
  then show ?thesis
    unfolding FindStringSubmatch_def by (simp split: option.splits)
qed

lemma FindStringSubmatch_versionRe_shape:
  assumes "FindStringSubmatch versionRe s = Some m"
  shows "\<exists>w d1 d2 pt. m = [w, d1, d2, pt] \<and> d1 \<noteq> [] \<and> list_all is_digit d1 \<and>
           d2 \<noteq> [] \<and> list_all is_digit d2 \<and>
           (pt = [] \<or> (\<exists>d3. d3 \<noteq> [] \<and> list_all is_digit d3 \<and> pt = CHR ''.'' # d3))"
proof -
  from assms obtain s0 t c where f: "find_from versionRe s = Some (s0, t, c)"
    and m: "m = [take (length s0 - length t) s0,
                 case c 1 of None \<Rightarrow> [] | Some g \<Rightarrow> g,
                 case c 2 of None \<Rightarrow> [] | Some g \<Rightarrow> g,
                 case c 3 of None \<Rightarrow> [] | Some g \<Rightarrow> g]"
    unfolding FindStringSubmatch_versionRe by (auto split: option.splits)
  from find_from_sound [OF f] have "(t, c) \<in> set (parses versionRe s0 Map.empty)" .
  from in_parses_versionRe [OF this] obtain d1 d2 where
    d: "d1 \<noteq> []" "list_all is_digit d1" "d2 \<noteq> []" "list_all is_digit d2"
       "c 1 = Some d1" "c 2 = Some d2"
       "c 3 = None \<or> (\<exists>d3. d3 \<noteq> [] \<and> list_all is_digit d3 \<and> c 3 = Some (CHR ''.'' # d3))"
    by auto
  from d(7) show ?thesis
  proof
    assume "c 3 = None"
    with m d have "m = [take (length s0 - length t) s0, d1, d2, []]" by simp
    with d show ?thesis by blast
  next
    assume "\<exists>d3. d3 \<noteq> [] \<and> list_all is_digit d3 \<and> c 3 = Some (CHR ''.'' # d3)"
    then obtain d3 where d3: "d3 \<noteq> []" "list_all is_digit d3" "c 3 = Some (CHR ''.'' # d3)"
      by blast
    with m d have "m = [take (length s0 - length t) s0, d1, d2, CHR ''.'' # d3]" by simp
    with d d3 show ?thesis by blast
  qed
qed


subsection \<open>Normalization with the pattern of the program\<close>

lemma normalizeSemVer_versionRe:
  "normalizeSemVer s versionRe =
     (case find_from versionRe s of
        None \<Rightarrow> Inr ([], False)
      | Some (s0, t, c) \<Rightarrow>
          Inr ((case c 1 of None \<Rightarrow> [] | Some g \<Rightarrow> g) @ ''.'' @
               (case c 2 of None \<Rightarrow> [] | Some g \<Rightarrow> g) @
               (if (case c 3 of None \<Rightarrow> [] | Some g \<Rightarrow> g) = [] then ''.0''
                else (case c 3 of None \<Rightarrow> [] | Some g \<Rightarrow> g)), True))"
  unfolding normalizeSemVer_def FindStringSubmatch_versionRe
  by (simp add: index_def split: option.splits)

lemma parses_versionRe_nil:
  assumes "\<not> starts_digit s"
  shows "parses versionRe s c = []"
  unfolding versionRe_def
  by (rule parses_Seq_nil, rule parses_Group_nil, rule parses_Plus_Digit_nil, rule assms)

lemma find_from_versionRe_skip:
  "list_all (\<lambda>x. \<not> is_digit x) p \<Longrightarrow> find_from versionRe (p @ s) = find_from versionRe s"
proof (induction p)
  case Nil
  then show ?case by simp
next
  case (Cons x p)
  then have "\<not> starts_digit (x # p @ s)" by simp
  from parses_versionRe_nil [OF this] have "find_from versionRe (x # p @ s) = find_from versionRe (p @ s)"
    by (rule find_from_skip)
  with Cons show ?case by simp
qed

lemma normalizeSemVer_skip:
  "list_all (\<lambda>x. \<not> is_digit x) p \<Longrightarrow>
   normalizeSemVer (p @ s) versionRe = normalizeSemVer s versionRe"
  by (simp add: normalizeSemVer_versionRe find_from_versionRe_skip)

lemma normalizeSemVer_no_patch:
  assumes "d1 \<noteq> []" "list_all is_digit d1" "d2 \<noteq> []" "list_all is_digit d2"
    and "\<not> starts_digit rest" "\<not> starts_patch rest"
  shows "normalizeSemVer (d1 @ ''.'' @ d2 @ rest) versionRe = Inr (d1 @ ''.'' @ d2 @ ''.0'', True)"
proof -
  from parses_versionRe_no_patch [OF assms, of Map.empty] obtain ys where
    "parses versionRe (d1 @ CHR ''.'' # d2 @ rest) Map.empty
       = (rest, [1 \<mapsto> d1, 2 \<mapsto> d2]) # ys" by blast
  from find_from_first [OF this] show ?thesis
    by (simp add: normalizeSemVer_versionRe)
qed

lemma normalizeSemVer_patch:
  assumes "d1 \<noteq> []" "list_all is_digit d1" "d2 \<noteq> []" "list_all is_digit d2"
    and "d3 \<noteq> []" "list_all is_digit d3" "\<not> starts_digit rest"
  shows "normalizeSemVer (d1 @ ''.'' @ d2 @ ''.'' @ d3 @ rest) versionRe
           = Inr (d1 @ ''.'' @ d2 @ ''.'' @ d3, True)"
proof -
  from parses_versionRe_patch [OF assms, of Map.empty] obtain ys where
    "parses versionRe (d1 @ CHR ''.'' # d2 @ CHR ''.'' # d3 @ rest) Map.empty
       = (rest, [1 \<mapsto> d1, 2 \<mapsto> d2, 3 \<mapsto> CHR ''.'' # d3]) # ys" by blast
  from find_from_first [OF this] show ?thesis
    by (simp add: normalizeSemVer_versionRe)
qed

lemma normalizeSemVer_shape:
  assumes "normalizeSemVer s versionRe = Inr (v, True)"
  shows "\<exists>d1 d2 d3. d1 \<noteq> [] \<and> list_all is_digit d1 \<and> d2 \<noteq> [] \<and> list_all is_digit d2 \<and>
           d3 \<noteq> [] \<and> list_all is_digit d3 \<and> v = d1 @ ''.'' @ d2 @ ''.'' @ d3"
proof -
  from assms obtain m where m: "FindStringSubmatch versionRe s = Some m"
    by (auto simp: normalizeSemVer_def split: option.splits)
  from FindStringSubmatch_versionRe_shape [OF m] obtain w d1 d2 pt where
    s: "m = [w, d1, d2, pt]" "d1 \<noteq> []" "list_all is_digit d1" "d2 \<noteq> []" "list_all is_digit d2"
       "pt = [] \<or> (\<exists>d3. d3 \<noteq> [] \<and> list_all is_digit d3 \<and> pt = CHR ''.'' # d3)"
    by blast
  from assms m s(1) have v: "v = d1 @ ''.'' @ d2 @ (if pt = [] then ''.0'' else pt)"
    by (simp add: normalizeSemVer_def index_def)
  from s(6) show ?thesis
  proof
    assume "pt = []"
    with v have "v = d1 @ ''.'' @ d2 @ ''.'' @ ''0''" by simp
    moreover have "''0'' \<noteq> [] \<and> list_all is_digit ''0''" by (simp add: is_digit_def)
    ultimately show ?thesis using s by blast
  next
    assume "\<exists>d3. d3 \<noteq> [] \<and> list_all is_digit d3 \<and> pt = CHR ''.'' # d3"
    then obtain d3 where d3: "d3 \<noteq> []" "list_all is_digit d3" "pt = CHR ''.'' # d3" by blast
    with v have "v = d1 @ ''.'' @ d2 @ ''.'' @ d3" by simp
    with s d3 show ?thesis by blast
  qed
qed

lemma normalizeSemVer_total:
  "\<exists>v ok. normalizeSemVer s versionRe = Inr (v, ok) \<and> (\<not> ok \<longrightarrow> v = [])"
  by (auto simp: normalizeSemVer_versionRe split: option.splits)


subsection \<open>The leftmost version\<close>

lemma not_starts_digit_dropWhile [simp]: "\<not> starts_digit (dropWhile is_digit s)"
  by (induction s) simp_all

lemma digits_takeWhile [simp]: "list_all is_digit (takeWhile is_digit s)"
  by (induction s) simp_all

lemma takeWhile_digits_append:
  "list_all is_digit d \<Longrightarrow> \<not> starts_digit t \<Longrightarrow> takeWhile is_digit (d @ t) = d"
  by (induction d) (auto simp: starts_digit_def split: list.splits)

lemma dropWhile_digits_append:
  "list_all is_digit d \<Longrightarrow> \<not> starts_digit t \<Longrightarrow> dropWhile is_digit (d @ t) = t"
  by (induction d) (auto simp: starts_digit_def split: list.splits)

lemma takeWhile_digits_prefix:
  "list_all is_digit d \<Longrightarrow> d \<noteq> [] \<Longrightarrow> takeWhile is_digit (d @ t) \<noteq> []"
  by (cases d) auto

text \<open>A string at whose start the pattern matches begins with a version.\<close>

lemma in_parses_versionRe_shape:
  assumes "q \<in> set (parses versionRe s c)"
  shows "\<exists>d1 d2 t. d1 \<noteq> [] \<and> list_all is_digit d1 \<and> d2 \<noteq> [] \<and> list_all is_digit d2 \<and>
           s = d1 @ CHR ''.'' # d2 @ t"
proof -
  let ?patch = "Opt (Group 3 (Seq (Chr CHR ''.'') (Plus Digit)))"
  from assms obtain p1 where p1: "p1 \<in> set (parses (Group 1 (Plus Digit)) s c)"
    and r1: "q \<in> set (parses (Seq (Chr CHR ''.'') (Seq (Group 2 (Plus Digit)) ?patch)) (fst p1) (snd p1))"
    unfolding versionRe_def in_parses_Seq [of q "Group 1 (Plus Digit)"] by blast
  from r1 obtain p2 where p2: "p2 \<in> set (parses (Chr CHR ''.'') (fst p1) (snd p1))"
    and r2: "q \<in> set (parses (Seq (Group 2 (Plus Digit)) ?patch) (fst p2) (snd p2))"
    unfolding in_parses_Seq [of q "Chr CHR ''.''"] by blast
  from r2 obtain p3 where p3: "p3 \<in> set (parses (Group 2 (Plus Digit)) (fst p2) (snd p2))"
    unfolding in_parses_Seq [of q "Group 2 (Plus Digit)"] by blast
  from in_parses_group_digits [OF p1] obtain d1 where
    d1: "d1 \<noteq> []" "list_all is_digit d1" "s = d1 @ fst p1" by blast
  from p2 have s2: "fst p1 = CHR ''.'' # fst p2" unfolding in_parses_Chr by simp
  from in_parses_group_digits [OF p3] obtain d2 where
    d2: "d2 \<noteq> []" "list_all is_digit d2" "fst p2 = d2 @ fst p3" by blast
  from d1(3) s2 d2(3) have "s = d1 @ CHR ''.'' # d2 @ fst p3" by simp
  with d1 d2 show ?thesis by blast
qed

lemma version_at_None_parses:
  assumes "version_at s = None"
  shows "parses versionRe s c = []"
proof (rule ccontr)
  assume "parses versionRe s c \<noteq> []"
  then obtain q where "q \<in> set (parses versionRe s c)" by (cases "parses versionRe s c") auto
  from in_parses_versionRe_shape [OF this] obtain d1 d2 t where
    d: "d1 \<noteq> []" "list_all is_digit d1" "d2 \<noteq> []" "list_all is_digit d2"
       "s = d1 @ CHR ''.'' # d2 @ t" by blast
  have nd: "\<not> starts_digit (CHR ''.'' # d2 @ t)" by simp
  have 1: "takeWhile is_digit s = d1" "dropWhile is_digit s = CHR ''.'' # d2 @ t"
    using d(2,5) nd by (simp_all add: takeWhile_digits_append dropWhile_digits_append)
  have 2: "takeWhile is_digit (d2 @ t) \<noteq> []" using d(3,4) by (simp add: takeWhile_digits_prefix)
  from 1 2 d(1) have "version_at s \<noteq> None" by (simp add: version_at_def Let_def)
  with assms show False by simp
qed

lemma version_at_Some_normalize:
  assumes "version_at s = Some v"
  shows "normalizeSemVer s versionRe = Inr (v, True)"
proof -
  let ?d1 = "takeWhile is_digit s" and ?s1 = "dropWhile is_digit s"
  from assms have d1: "?d1 \<noteq> []" by (auto simp: version_at_def Let_def split: if_splits)
  from assms d1 obtain s2 where s1: "?s1 = CHR ''.'' # s2"
    by (auto simp: version_at_def Let_def split: if_splits list.splits)
  let ?d2 = "takeWhile is_digit s2" and ?s3 = "dropWhile is_digit s2"
  from assms d1 s1 have d2: "?d2 \<noteq> []"
    by (auto simp: version_at_def Let_def split: if_splits)
  from assms d1 s1 d2 have v: "v = ?d1 @ ''.'' @ ?d2 @
      (if starts_patch ?s3 then ''.'' @ takeWhile is_digit (tl ?s3) else ''.0'')"
    by (simp add: version_at_def Let_def)
  have s: "s = ?d1 @ ''.'' @ ?d2 @ ?s3"
    using s1 takeWhile_dropWhile_id [of is_digit s] takeWhile_dropWhile_id [of is_digit s2]
    by simp
  show ?thesis
  proof (cases "starts_patch ?s3")
    case False
    from normalizeSemVer_no_patch [OF d1 digits_takeWhile d2 digits_takeWhile
        not_starts_digit_dropWhile False] s v False
    show ?thesis by simp
  next
    case True
    then obtain y s4 where s3: "?s3 = CHR ''.'' # y # s4" "is_digit y"
      by (auto simp: starts_patch_def split: list.splits)
    let ?d3 = "takeWhile is_digit (y # s4)" and ?s5 = "dropWhile is_digit (y # s4)"
    from s3(2) have d3: "?d3 \<noteq> []" by simp
    have "?s3 = ''.'' @ ?d3 @ ?s5" using s3(1) takeWhile_dropWhile_id [of is_digit "y # s4"] by simp
    with s have s': "s = ?d1 @ ''.'' @ ?d2 @ ''.'' @ ?d3 @ ?s5" by simp
    from True s3(1) v have v': "v = ?d1 @ ''.'' @ ?d2 @ ''.'' @ ?d3" by simp
    from normalizeSemVer_patch [OF d1 digits_takeWhile d2 digits_takeWhile d3 digits_takeWhile
        not_starts_digit_dropWhile] s' v'
    show ?thesis by metis
  qed
qed

lemma normalizeSemVer_Nil: "normalizeSemVer [] versionRe = Inr ([], False)"
  by code_simp

lemma normalizeSemVer_skip_one:
  assumes "version_at (x # s) = None"
  shows "normalizeSemVer (x # s) versionRe = normalizeSemVer s versionRe"
proof -
  from version_at_None_parses [OF assms] have "parses versionRe (x # s) Map.empty = []" .
  then have "find_from versionRe (x # s) = find_from versionRe s" by (rule find_from_skip)
  then show ?thesis by (simp add: normalizeSemVer_versionRe)
qed

lemma normalizeSemVer_leftmost_version:
  "normalizeSemVer s versionRe =
     (case leftmost_version s of None \<Rightarrow> Inr ([], False) | Some v \<Rightarrow> Inr (v, True))"
proof (induction s)
  case Nil
  then show ?case by (simp add: normalizeSemVer_Nil)
next
  case (Cons x s)
  show ?case
  proof (cases "version_at (x # s)")
    case None
    with Cons normalizeSemVer_skip_one [OF None] show ?thesis by simp
  next
    case (Some v)
    with version_at_Some_normalize [OF Some] show ?thesis by simp
  qed
qed

lemma normalizeSemVer_skip_prefix:
  "\<forall>k<length p. version_at (drop k (p @ q)) = None \<Longrightarrow>
   normalizeSemVer (p @ q) versionRe = normalizeSemVer q versionRe"
proof (induction p)
  case Nil
  then show ?case by simp
next
  case (Cons x p)
  from Cons.prems have "version_at (drop 0 ((x # p) @ q)) = None" by blast
  then have 0: "version_at (x # p @ q) = None" by simp
  have "\<forall>k<length p. version_at (drop k (p @ q)) = None"
  proof (intro allI impI)
    fix k assume "k < length p"
    then have "Suc k < length (x # p)" by simp
    with Cons.prems have "version_at (drop (Suc k) ((x # p) @ q)) = None" by blast
    then show "version_at (drop k (p @ q)) = None" by simp
  qed
  from Cons.IH [OF this] normalizeSemVer_skip_one [OF 0] show ?case by simp
qed

lemma version_at_no_digit: "\<not> starts_digit s \<Longrightarrow> version_at s = None"
  by (cases s) (simp_all add: version_at_def)

lemma leftmost_version_no_digits:
  "list_all (\<lambda>x. \<not> is_digit x) s \<Longrightarrow> leftmost_version s = None"
  by (induction s) (simp_all add: version_at_no_digit)


lemma list_all_upt: "list_all P [0 ..< n] \<Longrightarrow> \<forall>k<n. P k"
  by (simp add: list_all_iff)

section \<open>Version normalization\<close>

text \<open>
  Claim C3. Normalizing \<^verbatim>\<open>3.11\<close> gives \<^verbatim>\<open>3.11.0\<close>, normalizing \<^verbatim>\<open>3.11.4\<close> gives \<^verbatim>\<open>3.11.4\<close>,
  and \<^verbatim>\<open>alpine\<close> has no version, as no input without digits has. In general, when the
  first place of the input at which a version begins holds a run of digits, a dot and a
  run of digits, followed by text that does not continue the second run and does not
  start a patch component, the result is the two runs with the patch \<^verbatim>\<open>0\<close>, whatever
  precedes that place.
\<close>

theorem normalizeSemVer_default_patch:
  "normalizeSemVer ''3.11'' versionRe = Inr (''3.11.0'', True) \<and>
   normalizeSemVer ''3.11.4'' versionRe = Inr (''3.11.4'', True) \<and>
   normalizeSemVer ''alpine'' versionRe = Inr ([], False) \<and>
   ((\<forall>k<length p. version_at (drop k (p @ d1 @ ''.'' @ d2 @ rest)) = None) \<and>
    d1 \<noteq> [] \<and> list_all is_digit d1 \<and> d2 \<noteq> [] \<and> list_all is_digit d2 \<and>
    \<not> starts_digit rest \<and> \<not> starts_patch rest \<longrightarrow>
      normalizeSemVer (p @ d1 @ ''.'' @ d2 @ rest) versionRe
        = Inr (d1 @ ''.'' @ d2 @ ''.0'', True)) \<and>
   (list_all (\<lambda>x. \<not> is_digit x) s \<longrightarrow> normalizeSemVer s versionRe = Inr ([], False))"
proof -
  have 1: "normalizeSemVer ''3.11'' versionRe = Inr (''3.11.0'', True)" by code_simp
  have 2: "normalizeSemVer ''3.11.4'' versionRe = Inr (''3.11.4'', True)" by code_simp
  have 3: "normalizeSemVer ''alpine'' versionRe = Inr ([], False)" by code_simp
  have 4: "(\<forall>k<length p. version_at (drop k (p @ d1 @ ''.'' @ d2 @ rest)) = None) \<and>
    d1 \<noteq> [] \<and> list_all is_digit d1 \<and> d2 \<noteq> [] \<and> list_all is_digit d2 \<and>
    \<not> starts_digit rest \<and> \<not> starts_patch rest \<longrightarrow>
      normalizeSemVer (p @ d1 @ ''.'' @ d2 @ rest) versionRe
        = Inr (d1 @ ''.'' @ d2 @ ''.0'', True)"
    using normalizeSemVer_skip_prefix [of p "d1 @ ''.'' @ d2 @ rest"]
      normalizeSemVer_no_patch [of d1 d2 rest]
    by simp
  have 5: "list_all (\<lambda>x. \<not> is_digit x) s \<longrightarrow> normalizeSemVer s versionRe = Inr ([], False)"
    by (simp add: normalizeSemVer_leftmost_version leftmost_version_no_digits)
  from 1 2 3 4 5 show ?thesis by blast
qed

theorem normalizeSemVer_default_patch_witness:
  "list_all (\<lambda>k. version_at (drop k ''redis7:7.2-rc1'') = None) [0 ..< length ''redis7:''] \<and>
   list_all is_digit ''7'' \<and> list_all is_digit ''2'' \<and>
   \<not> starts_digit ''-rc1'' \<and> \<not> starts_patch ''-rc1'' \<and>
   normalizeSemVer ''redis7:7.2-rc1'' versionRe = Inr (''7.2.0'', True) \<and>
   list_all (\<lambda>x. \<not> is_digit x) ''latest'' \<and>
   normalizeSemVer ''latest'' versionRe = Inr ([], False)"
proof -
  have l: "list_all (\<lambda>k. version_at (drop k ''redis7:7.2-rc1'') = None) [0 ..< length ''redis7:'']"
    by code_simp
  then have h: "\<forall>k<length ''redis7:''. version_at (drop k ''redis7:7.2-rc1'') = None"
    by (rule list_all_upt)
  have d: "list_all is_digit ''7''" "list_all is_digit ''2''"
    "\<not> starts_digit ''-rc1''" "\<not> starts_patch ''-rc1''"
    "list_all (\<lambda>x. \<not> is_digit x) ''latest''"
    by (simp_all add: is_digit_def)
  from normalizeSemVer_default_patch [of "''redis7:''" "''7''" "''2''" "''-rc1''" "''latest''"] h d
  have "normalizeSemVer ''redis7:7.2-rc1'' versionRe = Inr (''7.2.0'', True)"
    and "normalizeSemVer ''latest'' versionRe = Inr ([], False)"
    by simp_all
  with l d show ?thesis by blast
qed

text \<open>
  Claim C8. Normalization is idempotent on its outputs: a version that normalization
  returns normalizes to itself.
\<close>

theorem normalizeSemVer_idempotent:
  "normalizeSemVer s versionRe = Inr (v, True) \<Longrightarrow> normalizeSemVer v versionRe = Inr (v, True)"
proof -
  assume "normalizeSemVer s versionRe = Inr (v, True)"
  from normalizeSemVer_shape [OF this] obtain d1 d2 d3 where
    d: "d1 \<noteq> []" "list_all is_digit d1" "d2 \<noteq> []" "list_all is_digit d2"
       "d3 \<noteq> []" "list_all is_digit d3" and v: "v = d1 @ ''.'' @ d2 @ ''.'' @ d3" by blast
  have "\<not> starts_digit []" by simp
  from normalizeSemVer_patch [OF d this] v show ?thesis by simp
qed

theorem normalizeSemVer_idempotent_witness:
  "normalizeSemVer ''v3.11-alpine'' versionRe = Inr (''3.11.0'', True) \<and>
   normalizeSemVer ''3.11.0'' versionRe = Inr (''3.11.0'', True)"
proof -
  have h: "normalizeSemVer ''v3.11-alpine'' versionRe = Inr (''3.11.0'', True)"
    by code_simp
  from normalizeSemVer_idempotent [OF h] h show ?thesis by simp
qed

text \<open>
  Claim C9. The leftmost occurrence of the pattern decides the result: \<^verbatim>\<open>1.2-alpine3.18\<close>
  gives \<^verbatim>\<open>1.2.0\<close>. For every input the result is the version that begins at the first
  place of the input at which one begins, and no version when there is no such place:
  when no version begins inside \<open>p\<close> and the version \<open>v\<close> begins at \<open>q\<close>, the input
  \<open>p @ q\<close> gives \<open>v\<close>; written out, the first run of digits with a dot and a second run
  (and a patch component, when one follows) is the version, whatever the rest of the
  string contains.
\<close>

theorem normalizeSemVer_leftmost:
  "normalizeSemVer ''1.2-alpine3.18'' versionRe = Inr (''1.2.0'', True) \<and>
   normalizeSemVer s versionRe
     = (case leftmost_version s of None \<Rightarrow> Inr ([], False) | Some v \<Rightarrow> Inr (v, True)) \<and>
   ((\<forall>k<length p. version_at (drop k (p @ q)) = None) \<and> version_at q = Some v \<longrightarrow>
      normalizeSemVer (p @ q) versionRe = Inr (v, True)) \<and>
   ((\<forall>k<length p. version_at (drop k (p @ d1 @ ''.'' @ d2 @ rest)) = None) \<and>
    d1 \<noteq> [] \<and> list_all is_digit d1 \<and> d2 \<noteq> [] \<and> list_all is_digit d2 \<and>
    \<not> starts_digit rest \<and> \<not> starts_patch rest \<longrightarrow>
      normalizeSemVer (p @ d1 @ ''.'' @ d2 @ rest) versionRe
        = Inr (d1 @ ''.'' @ d2 @ ''.0'', True)) \<and>
   ((\<forall>k<length p. version_at (drop k (p @ d1 @ ''.'' @ d2 @ ''.'' @ d3 @ rest)) = None) \<and>
    d1 \<noteq> [] \<and> list_all is_digit d1 \<and> d2 \<noteq> [] \<and> list_all is_digit d2 \<and>
    d3 \<noteq> [] \<and> list_all is_digit d3 \<and> \<not> starts_digit rest \<longrightarrow>
      normalizeSemVer (p @ d1 @ ''.'' @ d2 @ ''.'' @ d3 @ rest) versionRe
        = Inr (d1 @ ''.'' @ d2 @ ''.'' @ d3, True))"
proof -
  have 1: "normalizeSemVer ''1.2-alpine3.18'' versionRe = Inr (''1.2.0'', True)" by code_simp
  have 2: "normalizeSemVer s versionRe
     = (case leftmost_version s of None \<Rightarrow> Inr ([], False) | Some v \<Rightarrow> Inr (v, True))"
    by (rule normalizeSemVer_leftmost_version)
  have 3: "(\<forall>k<length p. version_at (drop k (p @ q)) = None) \<and> version_at q = Some v \<longrightarrow>
      normalizeSemVer (p @ q) versionRe = Inr (v, True)"
    using normalizeSemVer_skip_prefix [of p q] version_at_Some_normalize [of q v] by simp
  have 4: "(\<forall>k<length p. version_at (drop k (p @ d1 @ ''.'' @ d2 @ rest)) = None) \<and>
    d1 \<noteq> [] \<and> list_all is_digit d1 \<and> d2 \<noteq> [] \<and> list_all is_digit d2 \<and>
    \<not> starts_digit rest \<and> \<not> starts_patch rest \<longrightarrow>
      normalizeSemVer (p @ d1 @ ''.'' @ d2 @ rest) versionRe
        = Inr (d1 @ ''.'' @ d2 @ ''.0'', True)"
    using normalizeSemVer_skip_prefix [of p "d1 @ ''.'' @ d2 @ rest"]
      normalizeSemVer_no_patch [of d1 d2 rest]
    by simp
  have 5: "(\<forall>k<length p. version_at (drop k (p @ d1 @ ''.'' @ d2 @ ''.'' @ d3 @ rest)) = None) \<and>
    d1 \<noteq> [] \<and> list_all is_digit d1 \<and> d2 \<noteq> [] \<and> list_all is_digit d2 \<and>
    d3 \<noteq> [] \<and> list_all is_digit d3 \<and> \<not> starts_digit rest \<longrightarrow>
      normalizeSemVer (p @ d1 @ ''.'' @ d2 @ ''.'' @ d3 @ rest) versionRe
        = Inr (d1 @ ''.'' @ d2 @ ''.'' @ d3, True)"
    using normalizeSemVer_skip_prefix [of p "d1 @ ''.'' @ d2 @ ''.'' @ d3 @ rest"]
      normalizeSemVer_patch [of d1 d2 d3 rest]
    by simp
  from 1 2 3 4 5 show ?thesis by blast
qed

theorem normalizeSemVer_leftmost_witness:
  "list_all (\<lambda>k. version_at (drop k ''mysql8:8.0-debian-12.1'') = None)
     [0 ..< length ''mysql8:''] \<and>
   version_at ''8.0-debian-12.1'' = Some ''8.0.0'' \<and>
   \<not> starts_digit ''-debian-12.1'' \<and> \<not> starts_patch ''-debian-12.1'' \<and>
   normalizeSemVer ''mysql8:8.0-debian-12.1'' versionRe = Inr (''8.0.0'', True) \<and>
   list_all (\<lambda>k. version_at (drop k ''8-1.2.3-4.5.6'') = None) [0 ..< length ''8-''] \<and>
   \<not> starts_digit ''-4.5.6'' \<and>
   normalizeSemVer ''8-1.2.3-4.5.6'' versionRe = Inr (''1.2.3'', True) \<and>
   leftmost_version ''8-1.2-3.4'' = Some ''1.2.0'' \<and>
   normalizeSemVer ''8-1.2-3.4'' versionRe = Inr (''1.2.0'', True)"
proof -
  have l1: "list_all (\<lambda>k. version_at (drop k ''mysql8:8.0-debian-12.1'') = None)
          [0 ..< length ''mysql8:'']"
    by code_simp
  then have h1: "\<forall>k<length ''mysql8:''. version_at (drop k ''mysql8:8.0-debian-12.1'') = None"
    by (rule list_all_upt)
  have l2: "list_all (\<lambda>k. version_at (drop k ''8-1.2.3-4.5.6'') = None) [0 ..< length ''8-'']"
    by code_simp
  then have h2: "\<forall>k<length ''8-''. version_at (drop k ''8-1.2.3-4.5.6'') = None"
    by (rule list_all_upt)
  have v: "version_at ''8.0-debian-12.1'' = Some ''8.0.0''" by code_simp
  have l: "leftmost_version ''8-1.2-3.4'' = Some ''1.2.0''" by code_simp
  have d: "list_all is_digit ''8''" "list_all is_digit ''0''" "list_all is_digit ''1''"
    "list_all is_digit ''2''" "list_all is_digit ''3''"
    "\<not> starts_digit ''-debian-12.1''" "\<not> starts_patch ''-debian-12.1''"
    "\<not> starts_digit ''-4.5.6''"
    by (simp_all add: is_digit_def)
  from normalizeSemVer_leftmost [of "''8-1.2-3.4''" "''mysql8:''" "''8.0-debian-12.1''"
      "''8.0.0''" "''8''" "''0''" "''-debian-12.1''" "''3''"] h1 v l
  have a: "normalizeSemVer ''mysql8:8.0-debian-12.1'' versionRe = Inr (''8.0.0'', True)"
    and b: "normalizeSemVer ''8-1.2-3.4'' versionRe = Inr (''1.2.0'', True)"
    by simp_all
  from normalizeSemVer_leftmost [of "[]" "''8-''" "[]" "[]" "''1''" "''2''" "''-4.5.6''" "''3''"]
    h2 d
  have c: "normalizeSemVer ''8-1.2.3-4.5.6'' versionRe = Inr (''1.2.3'', True)" by simp
  from l1 l2 v l d(6-8) a b c show ?thesis by blast
qed

section \<open>Loops over maps\<close>

lemma rangeMap_subset: "set (rangeMap order s m) \<subseteq> set m"
proof
  fix e assume "e \<in> set (rangeMap order s m)"
  then obtain k where "e \<in> set (case map_of m k of None \<Rightarrow> [] | Some v \<Rightarrow> [(k, v)])"
    by (auto simp: rangeMap_def)
  then have "map_of m (fst e) = Some (snd e)" by (cases "map_of m k") auto
  then show "e \<in> set m" using map_of_SomeD by fastforce
qed

lemma rangeMap_Nil [simp]: "rangeMap order s [] = []"
  by (simp add: rangeMap_def)

lemma fair_set: "fair order \<Longrightarrow> set (order s keys) = set keys"
  unfolding fair_def by (metis mset_eq_setD)

lemma fair_distinct: "fair order \<Longrightarrow> distinct (order s keys) \<longleftrightarrow> distinct keys"
  unfolding fair_def by (metis mset_eq_imp_distinct_iff)

lemma fair_Nil: "fair order \<Longrightarrow> order s [] = []"
  unfolding fair_def by (metis mset_zero_iff)

lemma lookups_keys:
  "\<forall>k \<in> set ks. map_of m k \<noteq> None \<Longrightarrow>
   map fst (concat (map (\<lambda>k. case map_of m k of None \<Rightarrow> [] | Some v \<Rightarrow> [(k, v)]) ks)) = ks"
  by (induction ks) auto

lemma lookups_map_of:
  "map_of (concat (map (\<lambda>k. case map_of m k of None \<Rightarrow> [] | Some v \<Rightarrow> [(k, v)]) ks)) k
     = (if k \<in> set ks then map_of m k else None)"
  by (induction ks) (auto simp: map_add_def split: option.splits)

lemma rangeMap_keys:
  assumes "fair order"
  shows "map fst (rangeMap order s m) = order s (map fst m)"
proof -
  have "\<forall>k \<in> set (order s (map fst m)). map_of m k \<noteq> None"
    using fair_set [OF assms, of s "map fst m"] by (auto simp: map_of_eq_None_iff)
  then show ?thesis unfolding rangeMap_def by (rule lookups_keys)
qed

lemma rangeMap_map_of:
  assumes "fair order"
  shows "map_of (rangeMap order s m) = map_of m"
proof
  fix k
  show "map_of (rangeMap order s m) k = map_of m k"
  proof (cases "k \<in> fst ` set m")
    case True
    with fair_set [OF assms, of s "map fst m"] show ?thesis
      by (simp add: rangeMap_def lookups_map_of)
  next
    case False
    then have "map_of m k = None" by (simp add: map_of_eq_None_iff)
    with False fair_set [OF assms, of s "map fst m"] show ?thesis
      by (simp add: rangeMap_def lookups_map_of)
  qed
qed

lemma fair_listOrder: "fair listOrder"
  by (simp add: fair_def listOrder_def)

section \<open>Collecting the images\<close>

lemma distinct_keys_lookup:
  "distinct_keys m \<Longrightarrow> map_of m k = Some inner \<Longrightarrow> distinct (map fst inner)"
  by (auto simp: distinct_keys_def list_all_iff dest: map_of_SomeD)

lemma distinct_keys_of: "distinct_keys m \<Longrightarrow> distinct (keys_of m k)"
  by (auto simp: keys_of_def distinct_keys_lookup split: option.splits)

lemma set_update_subset:
  "set (AList.update k v al) \<subseteq> insert (k, v) (set al)"
  by (induction al) auto

lemma distinct_keys_update:
  assumes "distinct_keys m" "distinct (map fst inner)"
  shows "distinct_keys (AList.update k inner m)"
proof -
  from assms(1) have "distinct (map fst (AList.update k inner m))"
    by (simp add: distinct_keys_def distinct_update)
  moreover have "list_all (\<lambda>(k, inner). distinct (map fst inner)) (AList.update k inner m)"
    using assms set_update_subset [of k inner m]
    by (auto simp: distinct_keys_def list_all_iff)
  ultimately show ?thesis by (simp add: distinct_keys_def)
qed

lemma keys_of_update_same: "keys_of (AList.update k inner m) k = map fst inner"
  by (simp add: keys_of_def update_conv')

lemma extends_refl: "distinct_keys acc \<Longrightarrow> extends acc acc ns {}"
  by (simp add: extends_def)

lemma extends_trans:
  "extends acc acc1 ns X \<Longrightarrow> extends acc1 acc2 ns Y \<Longrightarrow> extends acc acc2 ns (X \<union> Y)"
  by (auto simp: extends_def)

lemma setImage_extends:
  assumes "distinct_keys acc" "ns \<in> fst ` set acc"
  shows "\<exists>acc'. setImage ns img acc = Inr acc' \<and> extends acc acc' ns {img}"
proof -
  from assms(2) obtain images where m: "map_of acc ns = Some images"
    by (metis domD dom_map_of_conv_image_fst)
  let ?acc' = "AList.update ns (AList.update img 1 images) acc"
  from distinct_keys_lookup [OF assms(1) m] have "distinct (map fst (AList.update img 1 images))"
    by (rule distinct_update)
  from distinct_keys_update [OF assms(1) this] have 1: "distinct_keys ?acc'" .
  from assms(2) have 2: "fst ` set ?acc' = fst ` set acc" by (auto simp: dom_update)
  have 3: "set (keys_of ?acc' ns) = set (keys_of acc ns) \<union> {img}"
    using m by (simp add: keys_of_update_same) (simp add: keys_of_def dom_update)
  have 4: "\<forall>n. n \<noteq> ns \<longrightarrow> map_of ?acc' n = map_of acc n" by (simp add: update_conv')
  from m have "setImage ns img acc = Inr ?acc'" by (simp add: setImage_def)
  with 1 2 3 4 show ?thesis by (simp add: extends_def)
qed

lemma foldE_extends:
  assumes step: "\<And>x acc. distinct_keys acc \<Longrightarrow> ns \<in> fst ` set acc \<Longrightarrow>
                   \<exists>acc'. f x acc = Inr acc' \<and> extends acc acc' ns (g x)"
  shows "distinct_keys acc \<Longrightarrow> ns \<in> fst ` set acc \<Longrightarrow>
         \<exists>acc'. foldE f xs acc = Inr acc' \<and> extends acc acc' ns (\<Union>x \<in> set xs. g x)"
proof (induction xs arbitrary: acc)
  case Nil
  then show ?case by (simp add: extends_refl)
next
  case (Cons x xs)
  from step [OF Cons.prems] obtain acc1 where
    1: "f x acc = Inr acc1" "extends acc acc1 ns (g x)" by blast
  from 1(2) Cons.prems(2) have "distinct_keys acc1" "ns \<in> fst ` set acc1"
    by (simp_all add: extends_def)
  from Cons.IH [OF this] obtain acc2 where
    2: "foldE f xs acc1 = Inr acc2" "extends acc1 acc2 ns (\<Union>x \<in> set xs. g x)" by blast
  from extends_trans [OF 1(2) 2(2)] 1(1) 2(1) show ?case by simp
qed

lemma collectImages_extends:
  assumes "distinct_keys acc" "ns \<in> fst ` set acc"
  shows "\<exists>acc'. collectImages spec ns acc = Inr acc' \<and> extends acc acc' ns (set (podImages spec))"
proof -
  from foldE_extends [where f = "\<lambda>c. setImage ns (Image c)" and g = "\<lambda>c. {Image c}",
      OF setImage_extends assms, of "Containers spec"]
  obtain acc1 where 1: "foldE (\<lambda>c. setImage ns (Image c)) (Containers spec) acc = Inr acc1"
    "extends acc acc1 ns (\<Union>c \<in> set (Containers spec). {Image c})" by blast
  from 1(2) assms(2) have "distinct_keys acc1" "ns \<in> fst ` set acc1"
    by (simp_all add: extends_def)
  from foldE_extends [where f = "\<lambda>c. setImage ns (Image c)" and g = "\<lambda>c. {Image c}",
      OF setImage_extends this, of "InitContainers spec"]
  obtain acc2 where 2: "foldE (\<lambda>c. setImage ns (Image c)) (InitContainers spec) acc1 = Inr acc2"
    "extends acc1 acc2 ns (\<Union>c \<in> set (InitContainers spec). {Image c})" by blast
  have "(\<Union>c \<in> set (Containers spec). {Image c}) \<union> (\<Union>c \<in> set (InitContainers spec). {Image c})
        = set (podImages spec)"
    by (auto simp: podImages_def)
  with extends_trans [OF 1(2) 2(2)] have "extends acc acc2 ns (set (podImages spec))" by simp
  with 1(1) 2(1) show ?thesis by (simp add: collectImages_def)
qed

lemma collectSpecs_extends:
  assumes "distinct_keys acc" "ns \<in> fst ` set acc"
  shows "\<exists>acc'. foldE (\<lambda>d. collectImages d ns) specs acc = Inr acc' \<and>
                extends acc acc' ns (set (workloadImages specs))"
proof -
  have "(\<Union>d \<in> set specs. set (podImages d)) = set (workloadImages specs)"
    by (auto simp: workloadImages_def)
  with foldE_extends [where f = "\<lambda>d. collectImages d ns" and g = "\<lambda>d. set (podImages d)",
      OF collectImages_extends assms, of specs]
  show ?thesis by simp
qed


lemma collectNamespace_extends:
  assumes acc: "distinct_keys acc"
    and calls: "Deployments client ns = Inr deploys" "StatefulSets client ns = Inr ssets"
      "DaemonSets client ns = Inr dsets"
  shows "\<exists>acc'. collectNamespace client ns acc = Inr acc' \<and> distinct_keys acc' \<and>
           fst ` set acc' = insert ns (fst ` set acc) \<and>
           set (keys_of acc' ns) = set (keys_of acc ns) \<union> set (workloadImages (deploys @ ssets @ dsets)) \<and>
           (\<forall>n. n \<noteq> ns \<longrightarrow> map_of acc' n = map_of acc n)"
proof -
  define acc1 where "acc1 = (if map_of acc ns = None then AList.update ns [] acc else acc)"
  have d1: "distinct_keys acc1"
    using acc distinct_keys_update [OF acc, of "[]" ns] by (simp add: acc1_def)
  have k1: "fst ` set acc1 = insert ns (fst ` set acc)"
    by (auto simp: acc1_def dom_update map_of_eq_None_iff)
  then have in1: "ns \<in> fst ` set acc1" by simp
  have i1: "keys_of acc1 ns = keys_of acc ns"
    by (simp add: acc1_def keys_of_def update_conv')
  have o1: "\<forall>n. n \<noteq> ns \<longrightarrow> map_of acc1 n = map_of acc n"
    by (simp add: acc1_def update_conv')
  from collectSpecs_extends [OF d1 in1, of deploys] obtain acc2 where
    2: "foldE (\<lambda>d. collectImages d ns) deploys acc1 = Inr acc2"
       "extends acc1 acc2 ns (set (workloadImages deploys))" by blast
  from 2(2) in1 have "distinct_keys acc2" "ns \<in> fst ` set acc2" by (simp_all add: extends_def)
  from collectSpecs_extends [OF this, of ssets] obtain acc3 where
    3: "foldE (\<lambda>d. collectImages d ns) ssets acc2 = Inr acc3"
       "extends acc2 acc3 ns (set (workloadImages ssets))" by blast
  from 3(2) \<open>ns \<in> fst ` set acc2\<close> have "distinct_keys acc3" "ns \<in> fst ` set acc3"
    by (simp_all add: extends_def)
  from collectSpecs_extends [OF this, of dsets] obtain acc4 where
    4: "foldE (\<lambda>d. collectImages d ns) dsets acc3 = Inr acc4"
       "extends acc3 acc4 ns (set (workloadImages dsets))" by blast
  from extends_trans [OF extends_trans [OF 2(2) 3(2)] 4(2)]
  have e: "extends acc1 acc4 ns (set (workloadImages (deploys @ ssets @ dsets)))"
    by (simp add: workloadImages_def Un_assoc)
  have "collectNamespace client ns acc = Inr acc4"
    using calls 2(1) 3(1) 4(1)
    by (simp add: collectNamespace_def acc1_def [symmetric] collectFromDeployments_def
        collectFromStatefulSets_def collectFromDaemonSets_def)
  with e k1 i1 o1 show ?thesis by (simp add: extends_def)
qed

lemma collectNamespaces_inv:
  assumes "\<forall>n \<in> set namespaces. listable client n"
    and "distinct_keys acc"
    and "\<forall>n \<in> fst ` set acc. set (keys_of acc n) = set (namespaceImages client n)"
  shows "\<exists>acc'. foldE (collectNamespace client) namespaces acc = Inr acc' \<and> distinct_keys acc' \<and>
           fst ` set acc' = set namespaces \<union> fst ` set acc \<and>
           (\<forall>n \<in> fst ` set acc'. set (keys_of acc' n) = set (namespaceImages client n))"
  using assms
proof (induction namespaces arbitrary: acc)
  case Nil
  then show ?case by simp
next
  case (Cons ns namespaces)
  from Cons.prems(1) obtain deploys ssets dsets where
    calls: "Deployments client ns = Inr deploys" "StatefulSets client ns = Inr ssets"
      "DaemonSets client ns = Inr dsets"
    by (auto simp: listable_def isl_def) (metis sum.exhaust_sel sum.disc(1))
  then have w: "namespaceImages client ns = workloadImages (deploys @ ssets @ dsets)"
    by (simp add: namespaceImages_def)
  from collectNamespace_extends [OF Cons.prems(2) calls] obtain acc1 where
    1: "collectNamespace client ns acc = Inr acc1" "distinct_keys acc1"
       "fst ` set acc1 = insert ns (fst ` set acc)"
       "set (keys_of acc1 ns) = set (keys_of acc ns) \<union> set (workloadImages (deploys @ ssets @ dsets))"
       "\<forall>n. n \<noteq> ns \<longrightarrow> map_of acc1 n = map_of acc n"
    by blast
  have k: "set (keys_of acc ns) \<subseteq> set (namespaceImages client ns)"
  proof (cases "ns \<in> fst ` set acc")
    case True
    with Cons.prems(3) show ?thesis by blast
  next
    case False
    then have "map_of acc ns = None" by (simp add: map_of_eq_None_iff)
    then show ?thesis by (simp add: keys_of_def)
  qed
  have inv1: "\<forall>n \<in> fst ` set acc1. set (keys_of acc1 n) = set (namespaceImages client n)"
  proof
    fix n assume n: "n \<in> fst ` set acc1"
    show "set (keys_of acc1 n) = set (namespaceImages client n)"
    proof (cases "n = ns")
      case True
      with 1(4) k w show ?thesis by auto
    next
      case False
      with 1(5) have "keys_of acc1 n = keys_of acc n" by (simp add: keys_of_def)
      moreover from False n 1(3) have "n \<in> fst ` set acc" by simp
      ultimately show ?thesis using Cons.prems(3) by auto
    qed
  qed
  from Cons.prems(1) have "\<forall>n \<in> set namespaces. listable client n" by simp
  from Cons.IH [OF this 1(2) inv1] obtain acc' where
    2: "foldE (collectNamespace client) namespaces acc1 = Inr acc'" "distinct_keys acc'"
       "fst ` set acc' = set namespaces \<union> fst ` set acc1"
       "\<forall>n \<in> fst ` set acc'. set (keys_of acc' n) = set (namespaceImages client n)"
    by blast
  from 1(1) 2(1) have "foldE (collectNamespace client) (ns # namespaces) acc = Inr acc'" by simp
  moreover from 2(3) 1(3) have "fst ` set acc' = set (ns # namespaces) \<union> fst ` set acc" by auto
  ultimately show ?case using 2(2) 2(4) by blast
qed



subsection \<open>From the inner maps to the slices\<close>

lemma appendImage_keys: "fst ` set (appendImage ns img result) = insert ns (fst ` set result)"
  by (auto simp: appendImage_def dom_update)

lemma map_of_appendImage:
  "map_of (appendImage ns img result) =
     (map_of result)(ns \<mapsto> (case map_of result ns of None \<Rightarrow> [] | Some imgs \<Rightarrow> imgs) @ [img])"
  by (simp add: appendImage_def update_conv')

lemma appendImages_fold:
  "map_of (fold (\<lambda>(img, _) result'. appendImage ns img result') images result) =
     (if images = [] then map_of result
      else (map_of result)(ns \<mapsto> (case map_of result ns of None \<Rightarrow> [] | Some imgs \<Rightarrow> imgs)
                                    @ map fst images))"
proof (induction images arbitrary: result)
  case Nil
  then show ?case by simp
next
  case (Cons p images)
  obtain img v where p: "p = (img, v)" by (cases p)
  have "fold (\<lambda>(img, _) result'. appendImage ns img result') (p # images) result
        = fold (\<lambda>(img, _) result'. appendImage ns img result') images (appendImage ns img result)"
    by (simp add: p)
  then show ?case
    by (simp only: Cons.IH map_of_appendImage) (auto simp: p fun_eq_iff)
qed

lemma appendImages_distinct:
  "distinct (map fst result) \<Longrightarrow>
   distinct (map fst (fold (\<lambda>(img, _) result'. appendImage ns img result') images result))"
proof (induction images arbitrary: result)
  case Nil
  then show ?case by simp
next
  case (Cons p images)
  from Cons.prems have "distinct (map fst (appendImage ns (fst p) result))"
    by (simp add: appendImage_def distinct_update)
  from Cons.IH [OF this] show ?case by (simp add: case_prod_beta)
qed


lemma normalizeAcc_fold:
  assumes "distinct (map fst acc)" "\<forall>n \<in> fst ` set acc. map_of result n = None"
    "distinct (map fst result)"
  shows "distinct (map fst (fold (\<lambda>(ns, images) result.
                   fold (\<lambda>(img, _) result'. appendImage ns img result') (R ns images) result)
                 acc result)) \<and>
         map_of (fold (\<lambda>(ns, images) result.
                   fold (\<lambda>(img, _) result'. appendImage ns img result') (R ns images) result)
                 acc result)
           = (\<lambda>n. case map_of acc n of
                     None \<Rightarrow> map_of result n
                   | Some images \<Rightarrow> if R n images = [] then None else Some (map fst (R n images)))"
  using assms
proof (induction acc arbitrary: result)
  case Nil
  then show ?case by simp
next
  case (Cons e acc)
  obtain ns images where e: "e = (ns, images)" by (cases e)
  let ?r1 = "fold (\<lambda>(img, _) result'. appendImage ns img result') (R ns images) result"
  from Cons.prems(2) e have none: "map_of result ns = None" by simp
  have m1: "map_of ?r1 = (if R ns images = [] then map_of result
                          else (map_of result)(ns \<mapsto> map fst (R ns images)))"
    using none by (simp add: appendImages_fold)
  from Cons.prems(1) e have d: "distinct (map fst acc)" and nin: "ns \<notin> fst ` set acc" by auto
  have n1: "\<forall>n \<in> fst ` set acc. map_of ?r1 n = None"
    using Cons.prems(2) nin by (auto simp: m1)
  have d1: "distinct (map fst ?r1)" using Cons.prems(3) by (rule appendImages_distinct)
  from nin have accns: "map_of acc ns = None" by (simp add: map_of_eq_None_iff)
  from Cons.IH [OF d n1 d1] accns none show ?case
    by (auto simp: e m1 fun_eq_iff split: option.splits)
qed

lemma normalizeAcc_lookup:
  assumes "fair order" "distinct_keys acc"
  shows "distinct (map fst (normalizeAcc order acc)) \<and>
         (case map_of (normalizeAcc order acc) n of None \<Rightarrow> [] | Some imgs \<Rightarrow> imgs)
           = order (RangeAccImages n) (keys_of acc n) \<and>
         (map_of acc n = None \<longrightarrow> map_of (normalizeAcc order acc) n = None)"
proof -
  let ?acc = "rangeMap order RangeAcc acc"
  from assms(2) have "distinct (map fst acc)" by (simp add: distinct_keys_def)
  then have d: "distinct (map fst ?acc)"
    by (simp add: rangeMap_keys [OF assms(1)] fair_distinct [OF assms(1)])
  have m: "map_of ?acc = map_of acc" by (rule rangeMap_map_of [OF assms(1)])
  have "\<forall>n \<in> fst ` set ?acc. map_of ([] :: (string \<times> string list) list) n = None"
    "distinct (map fst ([] :: (string \<times> string list) list))" by simp_all
  from normalizeAcc_fold [OF d this, of "\<lambda>ns. rangeMap order (RangeAccImages ns)"]
  have r: "distinct (map fst (normalizeAcc order acc))"
    "map_of (normalizeAcc order acc) n =
       (case map_of acc n of
          None \<Rightarrow> None
        | Some images \<Rightarrow> if rangeMap order (RangeAccImages n) images = [] then None
                          else Some (map fst (rangeMap order (RangeAccImages n) images)))"
    by (simp_all add: normalizeAcc_def m cong: option.case_cong)
  have "(case map_of (normalizeAcc order acc) n of None \<Rightarrow> [] | Some imgs \<Rightarrow> imgs)
           = order (RangeAccImages n) (keys_of acc n)"
  proof (cases "map_of acc n")
    case None
    with r(2) show ?thesis by (simp add: keys_of_def fair_Nil [OF assms(1)])
  next
    case (Some images)
    with r(2) show ?thesis
      by (auto simp: keys_of_def rangeMap_keys [OF assms(1), symmetric])
  qed
  with r show ?thesis by simp
qed

text \<open>
  Claim C6. When the listing calls succeed, then for every fair order of the loops the
  collector returns, for every namespace, a collection without repetitions whose members
  are exactly the image strings of the main and init containers of the workloads of that
  namespace; only the listed namespaces have an entry.
\<close>

theorem CollectNamespaceImages_set:
  assumes "fair order" and "Namespaces client = Inr namespaces"
    and "\<forall>n \<in> set namespaces. listable client n"
  shows "\<exists>result. CollectNamespaceImages order client = Inr result \<and>
           distinct (map fst result) \<and> fst ` set result \<subseteq> set namespaces \<and>
           (\<forall>ns \<in> set namespaces.
              distinct (case map_of result ns of None \<Rightarrow> [] | Some imgs \<Rightarrow> imgs) \<and>
              set (case map_of result ns of None \<Rightarrow> [] | Some imgs \<Rightarrow> imgs)
                = set (namespaceImages client ns))"
proof -
  have e: "distinct_keys ([] :: image_acc)" by (simp add: distinct_keys_def)
  have "\<forall>n \<in> fst ` set ([] :: image_acc). set (keys_of [] n) = set (namespaceImages client n)"
    by simp
  from collectNamespaces_inv [OF assms(3) e this] obtain acc where
    acc: "foldE (collectNamespace client) namespaces [] = Inr acc" "distinct_keys acc"
      "fst ` set acc = set namespaces \<union> fst ` set ([] :: image_acc)"
      "\<forall>n \<in> fst ` set acc. set (keys_of acc n) = set (namespaceImages client n)"
    by blast
  from acc(3) have dom: "fst ` set acc = set namespaces" by simp
  let ?result = "normalizeAcc order acc"
  have r: "CollectNamespaceImages order client = Inr ?result"
    using assms(2) acc(1) by (simp add: CollectNamespaceImages_def)
  note l = normalizeAcc_lookup [OF assms(1) acc(2)]
  from l have d: "distinct (map fst ?result)" by simp
  have sub: "fst ` set ?result \<subseteq> set namespaces"
  proof
    fix n assume "n \<in> fst ` set ?result"
    then have "map_of ?result n \<noteq> None" by (simp add: map_of_eq_None_iff)
    with l [of n] have "map_of acc n \<noteq> None" by blast
    then have "n \<in> fst ` set acc" by (simp add: map_of_eq_None_iff)
    with dom show "n \<in> set namespaces" by simp
  qed
  have "\<forall>ns \<in> set namespaces.
          distinct (case map_of ?result ns of None \<Rightarrow> [] | Some imgs \<Rightarrow> imgs) \<and>
          set (case map_of ?result ns of None \<Rightarrow> [] | Some imgs \<Rightarrow> imgs)
            = set (namespaceImages client ns)"
  proof
    fix ns assume "ns \<in> set namespaces"
    with dom have "ns \<in> fst ` set acc" by simp
    with acc(4) have "set (keys_of acc ns) = set (namespaceImages client ns)" by blast
    with distinct_keys_of [OF acc(2), of ns] l [of ns]
    show "distinct (case map_of ?result ns of None \<Rightarrow> [] | Some imgs \<Rightarrow> imgs) \<and>
          set (case map_of ?result ns of None \<Rightarrow> [] | Some imgs \<Rightarrow> imgs)
            = set (namespaceImages client ns)"
      by (simp add: fair_distinct [OF assms(1)] fair_set [OF assms(1)])
  qed
  with r d sub show ?thesis by blast
qed

theorem CollectNamespaceImages_set_witness:
  "fair listOrder \<and> Namespaces ns1Client = Inr [''ns1''] \<and> listable ns1Client ''ns1'' \<and>
   namespaceImages ns1Client ''ns1'' = [''redis:7.2.4'', ''redis:7.2.4''] \<and>
   (\<exists>result. CollectNamespaceImages listOrder ns1Client = Inr result \<and>
      distinct (case map_of result ''ns1'' of None \<Rightarrow> [] | Some imgs \<Rightarrow> imgs) \<and>
      set (case map_of result ''ns1'' of None \<Rightarrow> [] | Some imgs \<Rightarrow> imgs) = {''redis:7.2.4''})"
proof -
  have 1: "Namespaces ns1Client = Inr [''ns1'']" by (simp add: ns1Client_def)
  have 2: "\<forall>n \<in> set [''ns1'']. listable ns1Client n" by (simp add: listable_def ns1Client_def)
  have 3: "namespaceImages ns1Client ''ns1'' = [''redis:7.2.4'', ''redis:7.2.4'']"
    by (simp add: namespaceImages_def ns1Client_def workloadImages_def podImages_def)
  from CollectNamespaceImages_set [OF fair_listOrder 1 2] fair_listOrder 1 2 3
  show ?thesis by auto
qed

section \<open>Loading the rules\<close>

lemma compileRules_ok:
  "\<forall>y \<in> set ys. compiles Compile y \<Longrightarrow>
   \<exists>rules. compileRules Compile ys acc = Inr (acc @ rules) \<and> list_all2 (compiled Compile) ys rules"
proof (induction ys arbitrary: acc)
  case Nil
  then show ?case by simp
next
  case (Cons y ys)
  from Cons.prems obtain detectRe versionRe' where
    c: "Compile (detectionRegex y) = Inr detectRe" "Compile (versionRegex y) = Inr versionRe'"
    by (auto simp: compiles_def split: sum.splits)
  let ?r = "\<lparr>ApplicationName = applicationName y, VersionRegex = versionRe', DetectionRegex = detectRe\<rparr>"
  from Cons.prems have "\<forall>y \<in> set ys. compiles Compile y" by simp
  from Cons.IH [OF this, of "acc @ [?r]"] obtain rules where
    r: "compileRules Compile ys (acc @ [?r]) = Inr ((acc @ [?r]) @ rules)"
       "list_all2 (compiled Compile) ys rules" by blast
  from c r have "compileRules Compile (y # ys) acc = Inr (acc @ ?r # rules)" by simp
  moreover from c r(2) have "list_all2 (compiled Compile) (y # ys) (?r # rules)"
    by (simp add: compiled_def)
  ultimately show ?case by blast
qed

lemma compileRules_fail:
  "\<forall>x \<in> set pre. compiles Compile x \<Longrightarrow> \<not> compiles Compile y \<Longrightarrow>
   (\<exists>err. compileRules Compile (pre @ y # post) acc
            = Inl (Err (''invalid detection regex for '' @ applicationName y @ '': '' @ err))) \<or>
   (\<exists>err. compileRules Compile (pre @ y # post) acc
            = Inl (Err (''invalid version regex for '' @ applicationName y @ '': '' @ err)))"
proof (induction pre arbitrary: acc)
  case Nil
  then show ?case by (auto simp: compiles_def split: sum.splits)
next
  case (Cons x pre)
  from Cons.prems obtain detectRe versionRe' where
    c: "Compile (detectionRegex x) = Inr detectRe" "Compile (versionRegex x) = Inr versionRe'"
    by (auto simp: compiles_def split: sum.splits)
  from Cons.prems have "\<forall>x \<in> set pre. compiles Compile x" by simp
  from Cons.IH [OF this Cons.prems(2)] c show ?case by simp
qed

text \<open>
  Claim C7. For a document that is read and parsed: when every entry compiles, the
  result is the list of the compiled rules, entry by entry in the order of the document;
  when an entry does not compile and all entries before it do, the result is an error
  whose message names the application of that entry, and no rule list; so whenever some
  entry does not compile, the result is such an error for an entry that does not
  compile.
\<close>

theorem LoadRules_order_and_errors:
  assumes "ReadFile path = Inr data" and "Unmarshal data = Inr rf"
  shows "((\<forall>y \<in> set (DockerImages rf). compiles Compile y) \<longrightarrow>
            (\<exists>rules. LoadRules ReadFile Unmarshal Compile path = Inr rules \<and>
                     list_all2 (compiled Compile) (DockerImages rf) rules)) \<and>
         (DockerImages rf = pre @ y # post \<and> (\<forall>x \<in> set pre. compiles Compile x) \<and>
          \<not> compiles Compile y \<longrightarrow>
            (\<exists>err. LoadRules ReadFile Unmarshal Compile path
                     = Inl (Err (''invalid detection regex for '' @ applicationName y @ '': '' @ err))) \<or>
            (\<exists>err. LoadRules ReadFile Unmarshal Compile path
                     = Inl (Err (''invalid version regex for '' @ applicationName y @ '': '' @ err)))) \<and>
         ((\<exists>y \<in> set (DockerImages rf). \<not> compiles Compile y) \<longrightarrow>
            (\<exists>y \<in> set (DockerImages rf). \<exists>kind err.
               \<not> compiles Compile y \<and> kind \<in> {''detection'', ''version''} \<and>
               LoadRules ReadFile Unmarshal Compile path
                 = Inl (Err (''invalid '' @ kind @ '' regex for '' @ applicationName y @ '': '' @ err))))"
proof -
  have L: "LoadRules ReadFile Unmarshal Compile path = compileRules Compile (DockerImages rf) []"
    using assms by (simp add: LoadRules_def)
  have 1: "(\<forall>y \<in> set (DockerImages rf). compiles Compile y) \<longrightarrow>
            (\<exists>rules. LoadRules ReadFile Unmarshal Compile path = Inr rules \<and>
                     list_all2 (compiled Compile) (DockerImages rf) rules)"
    using compileRules_ok [of "DockerImages rf" Compile "[]"] unfolding L by simp
  have 2: "DockerImages rf = pre @ y # post \<and> (\<forall>x \<in> set pre. compiles Compile x) \<and>
          \<not> compiles Compile y \<longrightarrow>
            (\<exists>err. LoadRules ReadFile Unmarshal Compile path
                     = Inl (Err (''invalid detection regex for '' @ applicationName y @ '': '' @ err))) \<or>
            (\<exists>err. LoadRules ReadFile Unmarshal Compile path
                     = Inl (Err (''invalid version regex for '' @ applicationName y @ '': '' @ err)))"
    using compileRules_fail [of pre Compile y post "[]"] unfolding L by auto
  have 3: "(\<exists>y \<in> set (DockerImages rf). \<not> compiles Compile y) \<longrightarrow>
            (\<exists>y \<in> set (DockerImages rf). \<exists>kind err.
               \<not> compiles Compile y \<and> kind \<in> {''detection'', ''version''} \<and>
               LoadRules ReadFile Unmarshal Compile path
                 = Inl (Err (''invalid '' @ kind @ '' regex for '' @ applicationName y @ '': '' @ err)))"
  proof
    assume "\<exists>y \<in> set (DockerImages rf). \<not> compiles Compile y"
    from split_list_first_prop [OF this] obtain pre' y' post' where
      s: "DockerImages rf = pre' @ y' # post'" "\<not> compiles Compile y'"
         "\<forall>x \<in> set pre'. \<not> \<not> compiles Compile x" by blast
    then have p: "\<forall>x \<in> set pre'. compiles Compile x" by simp
    from s(1) have in_doc: "y' \<in> set (DockerImages rf)" by simp
    from compileRules_fail [OF p s(2), of post' "[]"] s(1) L
    consider err where "LoadRules ReadFile Unmarshal Compile path
                     = Inl (Err (''invalid detection regex for '' @ applicationName y' @ '': '' @ err))"
      | err where "LoadRules ReadFile Unmarshal Compile path
                     = Inl (Err (''invalid version regex for '' @ applicationName y' @ '': '' @ err))"
      by auto
    then show "\<exists>y \<in> set (DockerImages rf). \<exists>kind err.
               \<not> compiles Compile y \<and> kind \<in> {''detection'', ''version''} \<and>
               LoadRules ReadFile Unmarshal Compile path
                 = Inl (Err (''invalid '' @ kind @ '' regex for '' @ applicationName y @ '': '' @ err))"
    proof cases
      case 1
      then have "\<not> compiles Compile y' \<and> ''detection'' \<in> {''detection'', ''version''} \<and>
         LoadRules ReadFile Unmarshal Compile path
           = Inl (Err (''invalid '' @ ''detection'' @ '' regex for '' @ applicationName y' @ '': '' @ err))"
        using s(2) by simp
      with in_doc show ?thesis by blast
    next
      case 2
      then have "\<not> compiles Compile y' \<and> ''version'' \<in> {''detection'', ''version''} \<and>
         LoadRules ReadFile Unmarshal Compile path
           = Inl (Err (''invalid '' @ ''version'' @ '' regex for '' @ applicationName y' @ '': '' @ err))"
        using s(2) by simp
      with in_doc show ?thesis by blast
    qed
  qed
  from 1 2 3 show ?thesis by blast
qed

theorem LoadRules_order_and_errors_witness:
  "(\<exists>rules. LoadRules (\<lambda>p. Inr ''good'')
        (\<lambda>d. Inr \<lparr>DockerImages =
                    [\<lparr>applicationName = ''a'', versionRegex = ''1'', detectionRegex = ''a''\<rparr>,
                     \<lparr>applicationName = ''b'', versionRegex = ''2'', detectionRegex = ''b''\<rparr>]\<rparr>)
        (\<lambda>p. if p = ''('' then Inl ''missing closing )'' else Inr Digit)
        ''rules.yaml'' = Inr rules \<and> map ApplicationName rules = [''a'', ''b'']) \<and>
   LoadRules (\<lambda>p. Inr ''bad'')
        (\<lambda>d. Inr \<lparr>DockerImages =
                    [\<lparr>applicationName = ''a'', versionRegex = ''1'', detectionRegex = ''a''\<rparr>,
                     \<lparr>applicationName = ''b'', versionRegex = ''('', detectionRegex = ''b''\<rparr>,
                     \<lparr>applicationName = ''c'', versionRegex = ''3'', detectionRegex = ''(''\<rparr>]\<rparr>)
        (\<lambda>p. if p = ''('' then Inl ''missing closing )'' else Inr Digit)
        ''rules.yaml'' = Inl (Err ''invalid version regex for b: missing closing )'')"
proof -
  let ?C = "\<lambda>p. if p = ''('' then Inl ''missing closing )'' else Inr Digit"
  let ?a = "\<lparr>applicationName = ''a'', versionRegex = ''1'', detectionRegex = ''a''\<rparr>"
  let ?b = "\<lparr>applicationName = ''b'', versionRegex = ''2'', detectionRegex = ''b''\<rparr>"
  let ?b' = "\<lparr>applicationName = ''b'', versionRegex = ''('', detectionRegex = ''b''\<rparr>"
  let ?c = "\<lparr>applicationName = ''c'', versionRegex = ''3'', detectionRegex = ''(''\<rparr>"
  have good: "\<exists>rules. LoadRules (\<lambda>p. Inr ''good'') (\<lambda>d. Inr \<lparr>DockerImages = [?a, ?b]\<rparr>) ?C ''rules.yaml''
                = Inr rules \<and> list_all2 (compiled ?C) [?a, ?b] rules"
    using LoadRules_order_and_errors [of "\<lambda>p. Inr ''good''" "''rules.yaml''" "''good''"
        "\<lambda>d. Inr \<lparr>DockerImages = [?a, ?b]\<rparr>" "\<lparr>DockerImages = [?a, ?b]\<rparr>" ?C]
    by (simp add: compiles_def)
  have bad: "(\<exists>err. LoadRules (\<lambda>p. Inr ''bad'') (\<lambda>d. Inr \<lparr>DockerImages = [?a, ?b', ?c]\<rparr>) ?C ''rules.yaml''
                = Inl (Err (''invalid detection regex for '' @ applicationName ?b' @ '': '' @ err))) \<or>
             (\<exists>err. LoadRules (\<lambda>p. Inr ''bad'') (\<lambda>d. Inr \<lparr>DockerImages = [?a, ?b', ?c]\<rparr>) ?C ''rules.yaml''
                = Inl (Err (''invalid version regex for '' @ applicationName ?b' @ '': '' @ err)))"
    using LoadRules_order_and_errors [of "\<lambda>p. Inr ''bad''" "''rules.yaml''" "''bad''"
        "\<lambda>d. Inr \<lparr>DockerImages = [?a, ?b', ?c]\<rparr>" "\<lparr>DockerImages = [?a, ?b', ?c]\<rparr>" ?C
        "[?a]" ?b' "[?c]"]
    by (simp add: compiles_def)
  have val: "LoadRules (\<lambda>p. Inr ''bad'') (\<lambda>d. Inr \<lparr>DockerImages = [?a, ?b', ?c]\<rparr>) ?C ''rules.yaml''
       = Inl (Err ''invalid version regex for b: missing closing )'')"
    by (simp add: LoadRules_def)
  from good obtain rules where
    r: "LoadRules (\<lambda>p. Inr ''good'') (\<lambda>d. Inr \<lparr>DockerImages = [?a, ?b]\<rparr>) ?C ''rules.yaml'' = Inr rules"
       "list_all2 (compiled ?C) [?a, ?b] rules" by blast
  from r(2) have "map ApplicationName rules = [''a'', ''b'']"
    by (auto simp: list_all2_Cons1 compiled_def)
  with r(1) have "\<exists>rules. LoadRules (\<lambda>p. Inr ''good'') (\<lambda>d. Inr \<lparr>DockerImages = [?a, ?b]\<rparr>) ?C ''rules.yaml''
                = Inr rules \<and> map ApplicationName rules = [''a'', ''b'']"
    by simp
  with bad val show ?thesis by simp
qed

text \<open>
  Claim C10. A document that is read and parsed and holds no rule entries gives the empty
  rule list and no error.
\<close>

theorem LoadRules_empty:
  "ReadFile path = Inr data \<Longrightarrow> Unmarshal data = Inr rf \<Longrightarrow> DockerImages rf = [] \<Longrightarrow>
   LoadRules ReadFile Unmarshal Compile path = Inr []"
  by (simp add: LoadRules_def)

theorem LoadRules_empty_witness:
  "LoadRules (\<lambda>p. if p = ''./keepup-detection.yaml'' then Inr ''docker: []'' else Inl ''no such file'')
     (\<lambda>d. if d = ''docker: []'' then Inr \<lparr>DockerImages = []\<rparr> else Inl ''cannot unmarshal'')
     (\<lambda>p. Inl ''not called'') ''./keepup-detection.yaml'' = Inr []"
  by (rule LoadRules_empty [where data = "''docker: []''" and rf = "\<lparr>DockerImages = []\<rparr>"]) simp_all

section \<open>Matching the rules and building the report\<close>

lemma foldE_invariant:
  assumes "\<And>x s. x \<in> set xs \<Longrightarrow> I s \<Longrightarrow> \<exists>s'. f x s = Inr s' \<and> I s'" and "I s"
  shows "\<exists>s'. foldE f xs s = Inr s' \<and> I s'"
  using assms
proof (induction xs arbitrary: s)
  case Nil
  then show ?case by simp
next
  case (Cons x xs)
  from Cons.prems(1) [of x s] Cons.prems(2) obtain s1 where 1: "f x s = Inr s1" "I s1" by auto
  have "\<And>y t. y \<in> set xs \<Longrightarrow> I t \<Longrightarrow> \<exists>t'. f y t = Inr t' \<and> I t'"
    using Cons.prems(1) by simp
  from Cons.IH [OF this 1(2)] 1(1) show ?case by simp
qed

lemma matchRule_cases:
  "(matchRule ns img rule uniq = Inr uniq \<and> (\<forall>v. \<not> resolves rule img v)) \<or>
   (\<exists>v. resolves rule img v \<and>
        matchRule ns img rule uniq = Inr (setVersion ns (ApplicationName rule) v uniq))"
proof -
  from normalizeSemVer_total [of "FindString (VersionRegex rule) img"] obtain v ok where
    "normalizeSemVer (FindString (VersionRegex rule) img) versionRe = Inr (v, ok)" by blast
  then show ?thesis by (cases ok) (auto simp: matchRule_def resolves_def)
qed

lemma setVersion_eq:
  "setVersion ns app v uniq =
     AList.update ns (AList.update app v (case map_of uniq ns of None \<Rightarrow> [] | Some m \<Rightarrow> m)) uniq"
proof (cases "map_of uniq ns")
  case None
  then show ?thesis by (simp add: setVersion_def update_conv')
next
  case (Some m)
  then show ?thesis by (simp add: setVersion_def)
qed

lemma setVersion_distinct_keys:
  assumes "distinct_keys uniq"
  shows "distinct_keys (setVersion ns app v uniq)"
proof -
  have "distinct (map fst (case map_of uniq ns of None \<Rightarrow> [] | Some m \<Rightarrow> m))"
    using assms by (auto simp: distinct_keys_lookup split: option.splits)
  then have "distinct (map fst (AList.update app v (case map_of uniq ns of None \<Rightarrow> [] | Some m \<Rightarrow> m)))"
    by (rule distinct_update)
  from distinct_keys_update [OF assms this] show ?thesis by (simp add: setVersion_eq)
qed

lemma version_of_setVersion:
  "version_of (setVersion ns app v uniq) ns' app' =
     (if ns' = ns \<and> app' = app then Some v else version_of uniq ns' app')"
  by (auto simp: version_of_def setVersion_eq update_conv' split: option.splits)

lemma setVersion_entries:
  assumes "(n, m) \<in> set (setVersion ns app v uniq)" "(a, w) \<in> set m"
  shows "(n = ns \<and> a = app \<and> w = v) \<or> (\<exists>m0. (n, m0) \<in> set uniq \<and> (a, w) \<in> set m0)"
proof -
  let ?inner = "case map_of uniq ns of None \<Rightarrow> [] | Some m \<Rightarrow> m"
  from assms(1) set_update_subset [of ns "AList.update app v ?inner" uniq]
  consider "n = ns" "m = AList.update app v ?inner" | "(n, m) \<in> set uniq"
    by (auto simp: setVersion_eq)
  then show ?thesis
  proof cases
    case 1
    with assms(2) set_update_subset [of app v ?inner]
    consider "a = app" "w = v" | "(a, w) \<in> set ?inner" by auto
    then show ?thesis
    proof cases
      case 1
      with \<open>n = ns\<close> show ?thesis by simp
    next
      case 2
      then obtain m0 where "map_of uniq ns = Some m0" "(a, w) \<in> set m0"
        by (cases "map_of uniq ns") simp_all
      with \<open>n = ns\<close> show ?thesis by (auto dest: map_of_SomeD)
    qed
  next
    case 2
    with assms(2) show ?thesis by blast
  qed
qed


lemma in_imagesInstalled:
  assumes "c \<in> set (imagesInstalled order uniq)"
  shows "\<exists>m. (Namespace c, m) \<in> set uniq \<and> (Version c, ChartName c) \<in> set m"
proof -
  from assms obtain e p where
    e: "e \<in> set (rangeMap order RangeUniqImagesByNs uniq)"
    and p: "p \<in> set (rangeMap order (RangeVersionedImage (fst e)) (snd e))"
    and c: "c = \<lparr>ChartName = snd p, Version = fst p, Namespace = fst e\<rparr>"
    by (auto simp: imagesInstalled_def case_prod_beta)
  from e rangeMap_subset have "(fst e, snd e) \<in> set uniq" by fastforce
  moreover from p rangeMap_subset have "(fst p, snd p) \<in> set (snd e)" by fastforce
  ultimately have "(Namespace c, snd e) \<in> set uniq \<and> (Version c, ChartName c) \<in> set (snd e)"
    using c by simp
  then show ?thesis by blast
qed

lemma matchRule_justified:
  assumes "(ns, images) \<in> set imagesByNs" "img \<in> set images" "rule \<in> set rules"
    and "justified rules imagesByNs uniq \<and> distinct_keys uniq"
  shows "\<exists>uniq'. matchRule ns img rule uniq = Inr uniq' \<and>
           (justified rules imagesByNs uniq' \<and> distinct_keys uniq')"
proof -
  from matchRule_cases [of ns img rule uniq]
  consider "matchRule ns img rule uniq = Inr uniq"
    | v where "resolves rule img v"
        "matchRule ns img rule uniq = Inr (setVersion ns (ApplicationName rule) v uniq)"
    by blast
  then show ?thesis
  proof cases
    case 1
    with assms(4) show ?thesis by simp
  next
    case 2
    have "justified rules imagesByNs (setVersion ns (ApplicationName rule) v uniq)"
      unfolding justified_def
    proof (intro allI impI)
      fix n m a w
      assume "(n, m) \<in> set (setVersion ns (ApplicationName rule) v uniq)" "(a, w) \<in> set m"
      from setVersion_entries [OF this]
      show "\<exists>images img rule. (n, images) \<in> set imagesByNs \<and> img \<in> set images \<and>
              rule \<in> set rules \<and> ApplicationName rule = a \<and> resolves rule img w"
      proof
        assume "n = ns \<and> a = ApplicationName rule \<and> w = v"
        with assms(1-3) 2(1) show ?thesis by blast
      next
        assume "\<exists>m0. (n, m0) \<in> set uniq \<and> (a, w) \<in> set m0"
        with assms(4) show ?thesis unfolding justified_def by blast
      qed
    qed
    with 2(2) assms(4) setVersion_distinct_keys show ?thesis by simp
  qed
qed

lemma matchImages_justified:
  "\<exists>uniq. matchImages order rules imagesByNs = Inr uniq \<and>
          (justified rules imagesByNs uniq \<and> distinct_keys uniq)"
proof -
  let ?I = "\<lambda>u. justified rules imagesByNs u \<and> distinct_keys u"
  have rule_loop: "\<exists>u'. foldE (matchRule ns img) rules u = Inr u' \<and> ?I u'"
    if "(ns, images) \<in> set imagesByNs" "img \<in> set images" "?I u" for ns images img u
  proof (rule foldE_invariant [where I = ?I])
    fix rule w
    assume "rule \<in> set rules" "?I w"
    with that show "\<exists>w'. matchRule ns img rule w = Inr w' \<and> ?I w'"
      by (intro matchRule_justified) auto
  qed (rule that(3))
  have image_loop: "\<exists>u'. matchNamespace rules ns images u = Inr u' \<and> ?I u'"
    if "(ns, images) \<in> set imagesByNs" "?I u" for ns images u
    unfolding matchNamespace_def
  proof (rule foldE_invariant [where I = ?I])
    fix img w
    assume "img \<in> set images" "?I w"
    with that(1) show "\<exists>w'. foldE (matchRule ns img) rules w = Inr w' \<and> ?I w'"
      by (rule rule_loop)
  qed (rule that(2))
  show ?thesis
    unfolding matchImages_def
  proof (rule foldE_invariant [where I = ?I])
    fix e u
    assume "e \<in> set (rangeMap order RangeImagesByNs imagesByNs)" "?I u"
    with rangeMap_subset have "(fst e, snd e) \<in> set imagesByNs" "?I u" by fastforce+
    then show "\<exists>u'. (case e of (ns, images) \<Rightarrow> matchNamespace rules ns images) u
                 = Inr u' \<and> ?I u'"
      using image_loop [of "fst e" "snd e" u] by (simp add: case_prod_beta)
  next
    show "?I []" by (simp add: justified_def distinct_keys_def)
  qed
qed

lemma installedCharts_justified:
  assumes "installedCharts order rules clientset = Inr charts" and "c \<in> set charts"
  shows "\<exists>imagesByNs images img rule.
           CollectNamespaceImages order clientset = Inr imagesByNs \<and>
           (Namespace c, images) \<in> set imagesByNs \<and> img \<in> set images \<and> rule \<in> set rules \<and>
           ApplicationName rule = Version c \<and> resolves rule img (ChartName c)"
proof -
  from assms(1) obtain imagesByNs where
    i: "CollectNamespaceImages order clientset = Inr imagesByNs"
    by (auto simp: installedCharts_def split: sum.splits)
  from matchImages_justified [of order rules imagesByNs] obtain uniq where
    u: "matchImages order rules imagesByNs = Inr uniq" "justified rules imagesByNs uniq" by blast
  from assms(1) i u(1) have "charts = imagesInstalled order uniq"
    by (simp add: installedCharts_def)
  with assms(2) have "c \<in> set (imagesInstalled order uniq)" by simp
  from in_imagesInstalled [OF this] obtain m where
    "(Namespace c, m) \<in> set uniq" "(Version c, ChartName c) \<in> set m" by blast
  with u(2) i show ?thesis unfolding justified_def by blast
qed

lemma foldE_append:
  "foldE f (xs @ ys) s = (case foldE f xs s of Inl e \<Rightarrow> Inl e | Inr s' \<Rightarrow> foldE f ys s')"
  by (induction xs arbitrary: s) (auto split: sum.splits)

lemma resolves_unique: "resolves rule img v \<Longrightarrow> resolves rule img w \<Longrightarrow> v = w"
  by (simp add: resolves_def)

lemma rules_loop_total: "\<exists>u'. foldE (matchRule ns img) rules u = Inr u'"
proof -
  have "\<exists>u'. foldE (matchRule ns img) rules u = Inr u' \<and> True"
    by (rule foldE_invariant [where I = "\<lambda>_. True"]) (use matchRule_cases in blast)+
  then show ?thesis by simp
qed

lemma matchNamespace_total: "\<exists>u'. matchNamespace rules ns images u = Inr u'"
proof -
  have "\<exists>u'. foldE (\<lambda>img. foldE (matchRule ns img) rules) images u = Inr u' \<and> True"
    by (rule foldE_invariant [where I = "\<lambda>_. True"]) (use rules_loop_total in auto)
  then show ?thesis by (simp add: matchNamespace_def)
qed

lemma later_rules_keep_version:
  assumes "\<forall>r \<in> set post. ApplicationName r = app \<longrightarrow> (\<forall>w. resolves r img w \<longrightarrow> w = v)"
    and "version_of u ns app = Some v"
  shows "\<exists>u'. foldE (matchRule ns img) post u = Inr u' \<and> version_of u' ns app = Some v"
proof (rule foldE_invariant [where I = "\<lambda>u. version_of u ns app = Some v"])
  fix r w
  assume r: "r \<in> set post" and w: "version_of w ns app = Some v"
  from matchRule_cases [of ns img r w]
  consider "matchRule ns img r w = Inr w"
    | x where "resolves r img x" "matchRule ns img r w = Inr (setVersion ns (ApplicationName r) x w)"
    by blast
  then show "\<exists>w'. matchRule ns img r w = Inr w' \<and> version_of w' ns app = Some v"
  proof cases
    case 1
    with w show ?thesis by simp
  next
    case 2
    with assms(1) r have "ApplicationName r = app \<longrightarrow> x = v" by blast
    with 2(2) w show ?thesis by (auto simp: version_of_setVersion)
  qed
qed (rule assms(2))

lemma last_image_wins:
  assumes "resolves rule img v"
    and "\<forall>r \<in> set post. ApplicationName r = ApplicationName rule \<longrightarrow>
           (\<forall>w. resolves r img w \<longrightarrow> w = v)"
  shows "\<exists>uniq. matchNamespace (pre @ rule # post) ns (images @ [img]) uniq0 = Inr uniq \<and>
           version_of uniq ns (ApplicationName rule) = Some v"
proof -
  from matchNamespace_total [of "pre @ rule # post" ns images uniq0] obtain u1 where
    1: "matchNamespace (pre @ rule # post) ns images uniq0 = Inr u1" by blast
  from rules_loop_total [of ns img pre u1] obtain u2 where
    2: "foldE (matchRule ns img) pre u1 = Inr u2" by blast
  from assms(1) have 3: "matchRule ns img rule u2 = Inr (setVersion ns (ApplicationName rule) v u2)"
    by (simp add: resolves_def matchRule_def)
  have "version_of (setVersion ns (ApplicationName rule) v u2) ns (ApplicationName rule) = Some v"
    by (simp add: version_of_setVersion)
  from later_rules_keep_version [OF assms(2) this] obtain u3 where
    4: "foldE (matchRule ns img) post (setVersion ns (ApplicationName rule) v u2) = Inr u3"
       "version_of u3 ns (ApplicationName rule) = Some v" by blast
  from 2 3 4(1) have "foldE (matchRule ns img) (pre @ rule # post) u1 = Inr u3"
    by (simp add: foldE_append)
  with 1 have "matchNamespace (pre @ rule # post) ns (images @ [img]) uniq0 = Inr u3"
    by (simp add: matchNamespace_def foldE_append)
  with 4(2) show ?thesis by blast
qed

lemma rangeMap_single:
  assumes "fair order"
  shows "rangeMap order s [(k, v)] = [(k, v)]"
proof -
  from assms have "mset (order s [k]) = mset [k]" by (simp add: fair_def)
  then have "order s [k] = [k]" by simp
  then show ?thesis by (simp add: rangeMap_def)
qed

lemma collect_ns1:
  "fair order \<Longrightarrow> CollectNamespaceImages order ns1Client = Inr [(''ns1'', [''redis:7.2.4''])]"
  by (simp add: CollectNamespaceImages_def ns1Client_def collectNamespace_def
      collectFromDeployments_def collectFromStatefulSets_def collectFromDaemonSets_def
      collectImages_def setImage_def normalizeAcc_def rangeMap_single appendImage_def)

lemma match_ns1:
  "fair order \<Longrightarrow> matchImages order [redisRule] [(''ns1'', [''redis:7.2.4''])]
     = Inr [(''ns1'', [(''redis'', ''7.2.4'')])]"
proof -
  assume "fair order"
  have "foldE (\<lambda>(ns, images). matchNamespace [redisRule] ns images)
          [(''ns1'', [''redis:7.2.4''])] [] = Inr [(''ns1'', [(''redis'', ''7.2.4'')])]"
    by code_simp
  with \<open>fair order\<close> show ?thesis by (simp add: matchImages_def rangeMap_single)
qed

lemma match_two_rules:
  "fair order \<Longrightarrow> matchImages order [redisRule, redisStackRule] [(''ns1'', [''redis:7.2.4''])]
     = Inr [(''ns1'', [(''redis'', ''7.2.4''), (''redis-stack'', ''7.2.4'')])]"
proof -
  assume "fair order"
  have "foldE (\<lambda>(ns, images). matchNamespace [redisRule, redisStackRule] ns images)
          [(''ns1'', [''redis:7.2.4''])] []
        = Inr [(''ns1'', [(''redis'', ''7.2.4''), (''redis-stack'', ''7.2.4'')])]"
    by code_simp
  with \<open>fair order\<close> show ?thesis by (simp add: matchImages_def rangeMap_single)
qed

text \<open>
  The report of \<^verbatim>\<open>main\<close> holds the components of \<open>installedCharts\<close> for the rules that
  were loaded.
\<close>

lemma main_HelmCharts:
  assumes "main ReadFile Unmarshal Compile RULES_FILE CLUSTER_NAME clientset order = Inr out"
  shows "\<exists>rules. LoadRules ReadFile Unmarshal Compile RULES_FILE = Inr rules \<and>
           installedCharts order rules clientset = Inr (HelmCharts out)"
  using assms by (auto simp: main_def split: sum.splits)

text \<open>
  Claim C1, evaluated on the program. The rules \<open>redisRule\<close> and \<open>redisStackRule\<close>, declared
  in this order, both detect the image \<^verbatim>\<open>redis:7.2.4\<close>. The loop over the rules goes on
  after the first match: the aggregate holds an entry of the later rule beside the entry
  of the earlier one.
\<close>

theorem matching_continues_after_first_match:
  "fair order \<Longrightarrow>
   MatchString (DetectionRegex redisRule) ''redis:7.2.4'' \<and>
   MatchString (DetectionRegex redisStackRule) ''redis:7.2.4'' \<and>
   matchImages order [redisRule, redisStackRule] [(''ns1'', [''redis:7.2.4''])]
     = Inr [(''ns1'', [(''redis'', ''7.2.4''), (''redis-stack'', ''7.2.4'')])]"
proof -
  assume "fair order"
  have "MatchString (DetectionRegex redisRule) ''redis:7.2.4''" by code_simp
  moreover have "MatchString (DetectionRegex redisStackRule) ''redis:7.2.4''" by code_simp
  ultimately show ?thesis using match_two_rules [OF \<open>fair order\<close>] by simp
qed

theorem matching_continues_after_first_match_witness:
  "fair listOrder \<and>
   matchImages listOrder [redisRule, redisStackRule] [(''ns1'', [''redis:7.2.4''])]
     = Inr [(''ns1'', [(''redis'', ''7.2.4''), (''redis-stack'', ''7.2.4'')])] \<and>
   installedCharts listOrder [redisRule, redisStackRule] ns1Client
     = Inr [\<lparr>ChartName = ''7.2.4'', Version = ''redis'', Namespace = ''ns1''\<rparr>,
            \<lparr>ChartName = ''7.2.4'', Version = ''redis-stack'', Namespace = ''ns1''\<rparr>]"
proof -
  have "installedCharts listOrder [redisRule, redisStackRule] ns1Client
     = Inr [\<lparr>ChartName = ''7.2.4'', Version = ''redis'', Namespace = ''ns1''\<rparr>,
            \<lparr>ChartName = ''7.2.4'', Version = ''redis-stack'', Namespace = ''ns1''\<rparr>]"
    by code_simp
  with matching_continues_after_first_match [OF fair_listOrder] fair_listOrder
  show ?thesis by simp
qed

text \<open>
  Claim C2, evaluated on the program. For the rule of the scenario and the image
  \<^verbatim>\<open>redis:7.2.4\<close> in two containers of the namespace \<^verbatim>\<open>ns1\<close>, the report has one component,
  whatever the order of the loops; its field \<open>ChartName\<close> holds the version and its field
  \<open>Version\<close> the name of the application.
\<close>

theorem scenario_report_fields_swapped:
  "fair order \<Longrightarrow>
   installedCharts order [redisRule] ns1Client
     = Inr [\<lparr>ChartName = ''7.2.4'', Version = ''redis'', Namespace = ''ns1''\<rparr>]"
  by (simp add: installedCharts_def collect_ns1 match_ns1 imagesInstalled_def rangeMap_single)

theorem scenario_report_fields_swapped_witness:
  "fair listOrder \<and>
   installedCharts listOrder [redisRule] ns1Client
     = Inr [\<lparr>ChartName = ''7.2.4'', Version = ''redis'', Namespace = ''ns1''\<rparr>] \<and>
   main (\<lambda>path. Inr []) (\<lambda>data. Inr redisDocument) compileRedis
        ''./keepup-detection.yaml'' [] ns1Client listOrder
     = Inr \<lparr>ClusterName = ''minikube'', KubeVersion = ''v1.30.0'',
            HelmCharts = [\<lparr>ChartName = ''7.2.4'', Version = ''redis'', Namespace = ''ns1''\<rparr>]\<rparr>"
proof -
  have "LoadRules (\<lambda>path. Inr []) (\<lambda>data. Inr redisDocument) compileRedis
          ''./keepup-detection.yaml'' = Inr [redisRule]"
    by (simp add: LoadRules_def redisDocument_def compileRedis_def redisRule_def
        redisVersionText_def)
  with scenario_report_fields_swapped [OF fair_listOrder] fair_listOrder show ?thesis
    by (simp add: main_def getClusterName_def getKubernetesVersion_def ns1Client_def)
qed

text \<open>
  Claim C4. An image that a rule detects without resolving a version leaves the aggregate
  as it is, so every component of the report of \<^verbatim>\<open>main\<close> comes from an image of its
  namespace and a rule that resolves its version for that image; normalization with the
  pattern of the program always returns, with the empty string when there is no version.
  (The report carries the name of the application in its field \<open>Version\<close> and the version
  in \<open>ChartName\<close>.)
\<close>

theorem absent_version_no_component:
  "((\<forall>v. \<not> resolves rule img v) \<longrightarrow> matchRule ns img rule uniq = Inr uniq) \<and>
   (main ReadFile Unmarshal Compile RULES_FILE CLUSTER_NAME clientset order = Inr out \<longrightarrow>
      (\<forall>c \<in> set (HelmCharts out). \<exists>rules imagesByNs images img rule.
          LoadRules ReadFile Unmarshal Compile RULES_FILE = Inr rules \<and>
          CollectNamespaceImages order clientset = Inr imagesByNs \<and>
          (Namespace c, images) \<in> set imagesByNs \<and> img \<in> set images \<and> rule \<in> set rules \<and>
          ApplicationName rule = Version c \<and> resolves rule img (ChartName c))) \<and>
   (\<exists>v ok. normalizeSemVer s versionRe = Inr (v, ok) \<and> (\<not> ok \<longrightarrow> v = []))"
proof -
  have "(\<forall>v. \<not> resolves rule img v) \<longrightarrow> matchRule ns img rule uniq = Inr uniq"
    using matchRule_cases [of ns img rule uniq] by blast
  moreover have "main ReadFile Unmarshal Compile RULES_FILE CLUSTER_NAME clientset order = Inr out \<longrightarrow>
      (\<forall>c \<in> set (HelmCharts out). \<exists>rules imagesByNs images img rule.
          LoadRules ReadFile Unmarshal Compile RULES_FILE = Inr rules \<and>
          CollectNamespaceImages order clientset = Inr imagesByNs \<and>
          (Namespace c, images) \<in> set imagesByNs \<and> img \<in> set images \<and> rule \<in> set rules \<and>
          ApplicationName rule = Version c \<and> resolves rule img (ChartName c))"
  proof (intro impI ballI)
    fix c
    assume "main ReadFile Unmarshal Compile RULES_FILE CLUSTER_NAME clientset order = Inr out"
      and c: "c \<in> set (HelmCharts out)"
    from main_HelmCharts [OF this(1)] obtain rules where
      r: "LoadRules ReadFile Unmarshal Compile RULES_FILE = Inr rules"
         "installedCharts order rules clientset = Inr (HelmCharts out)" by blast
    from installedCharts_justified [OF r(2) c] r(1)
    show "\<exists>rules imagesByNs images img rule.
          LoadRules ReadFile Unmarshal Compile RULES_FILE = Inr rules \<and>
          CollectNamespaceImages order clientset = Inr imagesByNs \<and>
          (Namespace c, images) \<in> set imagesByNs \<and> img \<in> set images \<and> rule \<in> set rules \<and>
          ApplicationName rule = Version c \<and> resolves rule img (ChartName c)"
      by blast
  qed
  ultimately show ?thesis using normalizeSemVer_total [of s] by blast
qed

theorem absent_version_no_component_witness:
  "(\<forall>v. \<not> resolves redisRule ''redis:latest'' v) \<and>
   MatchString (DetectionRegex redisRule) ''redis:latest'' \<and>
   matchRule ''ns2'' ''redis:latest'' redisRule [(''ns1'', [(''redis'', ''7.2.4'')])]
     = Inr [(''ns1'', [(''redis'', ''7.2.4'')])] \<and>
   CollectNamespaceImages listOrder twoNsClient
     = Inr [(''ns1'', [''redis:7.2.4'']), (''ns2'', [''redis:latest''])] \<and>
   main (\<lambda>path. Inr []) (\<lambda>data. Inr redisDocument) compileRedis
        ''./keepup-detection.yaml'' [] twoNsClient listOrder
     = Inr \<lparr>ClusterName = ''minikube'', KubeVersion = ''v1.30.0'',
            HelmCharts = [\<lparr>ChartName = ''7.2.4'', Version = ''redis'', Namespace = ''ns1''\<rparr>]\<rparr> \<and>
   resolves redisRule ''redis:7.2.4'' ''7.2.4'' \<and>
   normalizeSemVer (FindString (VersionRegex redisRule) ''redis:latest'') versionRe = Inr ([], False)"
proof -
  have n: "normalizeSemVer (FindString (VersionRegex redisRule) ''redis:latest'') versionRe
             = Inr ([], False)"
    by code_simp
  then have 1: "\<forall>v. \<not> resolves redisRule ''redis:latest'' v" by (simp add: resolves_def)
  have 2: "MatchString (DetectionRegex redisRule) ''redis:latest''" by code_simp
  have 3: "CollectNamespaceImages listOrder twoNsClient
             = Inr [(''ns1'', [''redis:7.2.4'']), (''ns2'', [''redis:latest''])]"
    by code_simp
  have 4: "main (\<lambda>path. Inr []) (\<lambda>data. Inr redisDocument) compileRedis
        ''./keepup-detection.yaml'' [] twoNsClient listOrder
     = Inr \<lparr>ClusterName = ''minikube'', KubeVersion = ''v1.30.0'',
            HelmCharts = [\<lparr>ChartName = ''7.2.4'', Version = ''redis'', Namespace = ''ns1''\<rparr>]\<rparr>"
    by code_simp
  have 5: "resolves redisRule ''redis:7.2.4'' ''7.2.4''"
    unfolding resolves_def by code_simp
  from absent_version_no_component [of redisRule "''redis:latest''" "''ns2''"
      "[(''ns1'', [(''redis'', ''7.2.4'')])]" "\<lambda>path. Inr []" "\<lambda>data. Inr redisDocument"
      compileRedis "''./keepup-detection.yaml''" "[]" twoNsClient listOrder
      "\<lparr>ClusterName = ''minikube'', KubeVersion = ''v1.30.0'',
        HelmCharts = [\<lparr>ChartName = ''7.2.4'', Version = ''redis'', Namespace = ''ns1''\<rparr>]\<rparr>"] 1
  have "matchRule ''ns2'' ''redis:latest'' redisRule [(''ns1'', [(''redis'', ''7.2.4'')])]
          = Inr [(''ns1'', [(''redis'', ''7.2.4'')])]" by blast
  with n 1 2 3 4 5 show ?thesis by simp
qed

text \<open>
  Claim C5. For every order of the loops, the aggregate of the matching loops has
  distinct namespaces and, within each namespace, distinct applications. Each assignment
  keeps this, sets the version of its namespace and application whatever was recorded
  before, and leaves every other entry as it was; a rule that resolves a version for an
  image makes this assignment. So after the loops over the images of a namespace, the
  application of a rule that resolves a version for the image processed last has that
  version, whatever the earlier images gave, unless a later rule of the same application
  resolves another version for that image.
\<close>

theorem aggregate_one_version_per_application:
  "(\<exists>uniq. matchImages order rules imagesByNs = Inr uniq \<and> distinct_keys uniq) \<and>
   (distinct_keys uniq0 \<longrightarrow> distinct_keys (setVersion ns app v uniq0)) \<and>
   version_of (setVersion ns app v uniq0) ns app = Some v \<and>
   (ns' \<noteq> ns \<or> app' \<noteq> app \<longrightarrow>
      version_of (setVersion ns app v uniq0) ns' app' = version_of uniq0 ns' app') \<and>
   (resolves rule img v \<longrightarrow>
      matchRule ns img rule uniq0 = Inr (setVersion ns (ApplicationName rule) v uniq0)) \<and>
   (resolves rule img v \<and>
    (\<forall>r \<in> set post. ApplicationName r = ApplicationName rule \<longrightarrow>
       (\<forall>w. resolves r img w \<longrightarrow> w = v)) \<longrightarrow>
      (\<exists>uniq. matchNamespace (pre @ rule # post) ns (images @ [img]) uniq0 = Inr uniq \<and>
              version_of uniq ns (ApplicationName rule) = Some v))"
proof -
  have "resolves rule img v \<longrightarrow>
      matchRule ns img rule uniq0 = Inr (setVersion ns (ApplicationName rule) v uniq0)"
    by (simp add: resolves_def matchRule_def)
  moreover have "resolves rule img v \<and>
    (\<forall>r \<in> set post. ApplicationName r = ApplicationName rule \<longrightarrow>
       (\<forall>w. resolves r img w \<longrightarrow> w = v)) \<longrightarrow>
      (\<exists>uniq. matchNamespace (pre @ rule # post) ns (images @ [img]) uniq0 = Inr uniq \<and>
              version_of uniq ns (ApplicationName rule) = Some v)"
    using last_image_wins [of rule img v post pre ns images uniq0] by blast
  moreover have "\<exists>uniq. matchImages order rules imagesByNs = Inr uniq \<and> distinct_keys uniq"
    using matchImages_justified [of order rules imagesByNs] by blast
  moreover have "distinct_keys uniq0 \<longrightarrow> distinct_keys (setVersion ns app v uniq0)"
    using setVersion_distinct_keys [of uniq0 ns app v] by blast
  moreover have "version_of (setVersion ns app v uniq0) ns app = Some v"
    by (simp add: version_of_setVersion)
  moreover have "ns' \<noteq> ns \<or> app' \<noteq> app \<longrightarrow>
      version_of (setVersion ns app v uniq0) ns' app' = version_of uniq0 ns' app'"
    by (auto simp: version_of_setVersion)
  ultimately show ?thesis by blast
qed

theorem aggregate_one_version_per_application_witness:
  "distinct_keys [(''ns1'', [(''redis'', ''7.2.3'')])] \<and>
   resolves redisRule ''redis:7.2.4'' ''7.2.4'' \<and>
   version_of [(''ns1'', [(''redis'', ''7.2.3'')])] ''ns1'' ''redis'' = Some ''7.2.3'' \<and>
   matchRule ''ns1'' ''redis:7.2.4'' redisRule [(''ns1'', [(''redis'', ''7.2.3'')])]
     = Inr (setVersion ''ns1'' ''redis'' ''7.2.4'' [(''ns1'', [(''redis'', ''7.2.3'')])]) \<and>
   distinct_keys (setVersion ''ns1'' ''redis'' ''7.2.4'' [(''ns1'', [(''redis'', ''7.2.3'')])]) \<and>
   version_of (setVersion ''ns1'' ''redis'' ''7.2.4'' [(''ns1'', [(''redis'', ''7.2.3'')])])
     ''ns1'' ''redis'' = Some ''7.2.4'' \<and>
   version_of (setVersion ''ns1'' ''redis'' ''7.2.4'' [(''ns1'', [(''redis'', ''7.2.3'')])])
     ''ns2'' ''redis'' = None \<and>
   (\<exists>uniq. matchNamespace [redisRule] ''ns1'' [''redis:7.2.3'', ''redis:7.2.4'']
              [(''ns1'', [(''redis'', ''7.2.3'')])] = Inr uniq \<and>
           version_of uniq ''ns1'' ''redis'' = Some ''7.2.4'') \<and>
   matchImages listOrder [redisRule] [(''ns1'', [''redis:7.2.3'', ''redis:7.2.4''])]
     = Inr [(''ns1'', [(''redis'', ''7.2.4'')])]"
proof -
  have 1: "distinct_keys [(''ns1'', [(''redis'', ''7.2.3'')])]" by (simp add: distinct_keys_def)
  have 2: "resolves redisRule ''redis:7.2.4'' ''7.2.4''" unfolding resolves_def by code_simp
  have 3: "version_of [(''ns1'', [(''redis'', ''7.2.3'')])] ''ns1'' ''redis'' = Some ''7.2.3''"
    by (simp add: version_of_def)
  have 4: "version_of [(''ns1'', [(''redis'', ''7.2.3'')])] ''ns2'' ''redis'' = None"
    by (simp add: version_of_def)
  have 5: "matchImages listOrder [redisRule] [(''ns1'', [''redis:7.2.3'', ''redis:7.2.4''])]
             = Inr [(''ns1'', [(''redis'', ''7.2.4'')])]"
    by code_simp
  have 6: "ApplicationName redisRule = ''redis''" by (simp add: redisRule_def)
  from aggregate_one_version_per_application [of listOrder "[redisRule]"
      "[(''ns1'', [''redis:7.2.3'', ''redis:7.2.4''])]" "[(''ns1'', [(''redis'', ''7.2.3'')])]"
      "''ns1''" "''redis''" "''7.2.4''" "''ns2''" "''redis''" redisRule "''redis:7.2.4''"
      "[]" "[]" "[''redis:7.2.3'']"]
    1 2 3 4 5 6
  show ?thesis by simp
qed

end
